theory Spec2Isabelle
  imports Complex_Main "HOL-Library.Sublist"
begin

section \<open>Data model\<close>

text \<open>
  Python strings are modelled as \<open>string\<close> (lists of 8-bit characters read as the code
  points 0 to 255), Python's unbounded \<open>int\<close> as \<open>int\<close>, and a finite \<open>float\<close> time
  stamp as the \<open>real\<close> number it denotes. Arithmetic on time stamps rounds as IEEE
  double precision does (see \<open>float_sub\<close>).
\<close>

record FileEntry =
  fe_name :: string
  fe_path :: string
  fe_extension :: string
  fe_size :: int
  fe_modified :: real
  fe_is_dir :: bool

record DuplicateFile =
  df_name :: string
  df_path :: string
  df_size :: int
  df_modified :: real
  df_hash :: "string option"

record DuplicateGroup =
  dg_key :: string
  dg_files :: "DuplicateFile list"

text \<open>What \<open>os.stat\<close> returns, as far as the program reads it.\<close>

record stat_result =
  st_size :: int
  st_mtime :: real

section \<open>DuplicateGroup\<close>

definition total_size :: "DuplicateGroup \<Rightarrow> int" where
  "total_size g = sum_list (map df_size (dg_files g))"

definition count :: "DuplicateGroup \<Rightarrow> nat" where
  "count g = length (dg_files g)"

text \<open>
  \<open>sorted(xs, reverse=True)\<close> on integers: the descending arrangement of \<open>xs\<close>.
\<close>

definition sorted_reverse :: "int list \<Rightarrow> int list" where
  "sorted_reverse xs = rev (sort xs)"

definition wasted_space :: "DuplicateGroup \<Rightarrow> int" where
  "wasted_space g =
     (if length (dg_files g) \<le> 1 then 0
      else (let sizes = sorted_reverse (map df_size (dg_files g))
            in sum_list (drop 1 sizes)))"

text \<open>Three files of 100, 100 and 300 bytes, and the group they form.\<close>

definition sized_file :: "string \<Rightarrow> int \<Rightarrow> DuplicateFile" where
  "sized_file p n =
     \<lparr>df_name = p, df_path = p, df_size = n, df_modified = 0, df_hash = None\<rparr>"

definition group_100_100_300 :: DuplicateGroup where
  "group_100_100_300 =
     \<lparr>dg_key = ''report.txt'',
      dg_files = [sized_file ''a'' 100, sized_file ''b'' 100, sized_file ''c'' 300]\<rparr>"

section \<open>Library functions the program calls\<close>

text \<open>
  \<open>str.lower()\<close> on the code points below 256: the ASCII capitals and the Latin-1
  capitals (0xC0 to 0xDE, except the multiplication sign 0xD7) move up by 32.
\<close>

definition lower_char :: "char \<Rightarrow> char" where
  "lower_char c =
     (let n = (of_char c :: nat)
      in if (65 \<le> n \<and> n \<le> 90) \<or> (192 \<le> n \<and> n \<le> 222 \<and> n \<noteq> 215)
         then char_of (n + 32) else c)"

definition lower :: "string \<Rightarrow> string" where
  "lower s = map lower_char s"

text \<open>Python's \<open>q in s\<close> on strings: \<open>q\<close> occurs in \<open>s\<close> as a contiguous block.\<close>

definition str_in :: "string \<Rightarrow> string \<Rightarrow> bool" where
  "str_in q s = sublist q s"

text \<open>
  Subtraction of two Python floats: the exact difference rounded to double precision
  (53 significant bits, ties to even, steps of \<open>2^-1074\<close> below \<open>2^-1022\<close>). A result
  beyond the largest double would be \<open>inf\<close>; the model keeps its finite value, which
  compares with 1 as \<open>inf\<close> does. \<open>bit_length\<close> is the number of binary digits of a
  natural number and \<open>double_exponent x\<close> the integer part of the binary logarithm of
  \<open>\<bar>x\<bar>\<close>.
\<close>

function bit_length :: "nat \<Rightarrow> nat" where
  "bit_length n = (if n = 0 then 0 else Suc (bit_length (n div 2)))"
  by pat_completeness auto
termination
  by (relation "measure id") auto

definition pow2 :: "int \<Rightarrow> real" where
  "pow2 n = (if n \<ge> 0 then 2 ^ nat n else 1 / 2 ^ nat (- n))"

definition double_exponent :: "real \<Rightarrow> int" where
  "double_exponent x =
     (let a = \<bar>x\<bar>
      in if a \<ge> 1 then int (bit_length (nat \<lfloor>a\<rfloor>)) - 1
         else - int (bit_length (nat (\<lceil>1 / a\<rceil> - 1))))"

definition round_half_even :: "real \<Rightarrow> int" where
  "round_half_even y =
     (let f = \<lfloor>y\<rfloor>; d = y - of_int f
      in if d < 1 / 2 then f else if d > 1 / 2 then f + 1 else if even f then f else f + 1)"

definition round_to_double :: "real \<Rightarrow> real" where
  "round_to_double x =
     (if x = 0 then 0
      else (let e = max (double_exponent x) (- 1022);
                u = pow2 (e - 52)
            in of_int (round_half_even (x / u)) * u))"

definition float_sub :: "real \<Rightarrow> real \<Rightarrow> real" where
  "float_sub a b = round_to_double (a - b)"

declare bit_length.simps [simp del]

text \<open>
  \<open>str.rfind\<close> for a single character (or one of two characters): the index of the last
  character satisfying \<open>P\<close>, or \<open>-1\<close>.
\<close>

definition rfind :: "(char \<Rightarrow> bool) \<Rightarrow> string \<Rightarrow> int" where
  "rfind P s =
     (case filter (\<lambda>i. P (s ! i)) (rev [0..<length s]) of
        [] \<Rightarrow> -1
      | i # _ \<Rightarrow> int i)"

text \<open>
  \<open>genericpath._splitext\<close>, which \<open>os.path.splitext\<close> calls with the separators of the
  platform: the extension starts at the last dot, provided that dot comes after the last
  separator and some character between them is not a dot.
\<close>

definition splitext :: "(char \<Rightarrow> bool) \<Rightarrow> string \<Rightarrow> string \<times> string" where
  "splitext is_sep p =
     (let sepIndex = rfind is_sep p;
          dotIndex = rfind (\<lambda>c. c = CHR ''.'') p
      in if dotIndex > sepIndex
            \<and> list_ex (\<lambda>i. p ! i \<noteq> CHR ''.'') [nat (sepIndex + 1)..<nat dotIndex]
         then (take (nat dotIndex) p, drop (nat dotIndex) p)
         else (p, []))"

text \<open>
  The separators: \<open>/\<close> on POSIX; backslash and \<open>/\<close> where \<open>sys.platform == 'win32'\<close>.
\<close>

definition is_sep :: "bool \<Rightarrow> char \<Rightarrow> bool" where
  "is_sep win32 c = (c = CHR ''/'' \<or> (win32 \<and> c = CHR 0x5C))"

definition os_path_splitext :: "bool \<Rightarrow> string \<Rightarrow> string \<times> string" where
  "os_path_splitext win32 p = splitext (is_sep win32) p"

text \<open>
  \<open>posixpath.join\<close> and \<open>posixpath.basename\<close> for two components. The indexer and the
  scanners are modelled with the POSIX path functions; paths are used as keys only.
\<close>

definition os_path_join :: "string \<Rightarrow> string \<Rightarrow> string" where
  "os_path_join a b =
     (if take 1 b = ''/'' then b
      else if a = [] \<or> last a = CHR ''/'' then a @ b
      else a @ ''/'' @ b)"

definition os_path_basename :: "string \<Rightarrow> string" where
  "os_path_basename p = drop (nat (rfind (\<lambda>c. c = CHR ''/'') p + 1)) p"

text \<open>
  A directory tree as \<open>os.walk\<close> sees it: the files of a directory and its named
  subdirectories. \<open>os_walk keep top_dir t\<close> is the sequence of \<open>(root, files)\<close> that the
  top-down walk yields when the loop body prunes \<open>dirs\<close> in place to the names satisfying
  \<open>keep\<close>. Errors of the listing are ignored by \<open>os.walk\<close> itself (no \<open>onerror\<close>).
\<close>

datatype dir_tree = Dir "string list" "(string \<times> dir_tree) list"

fun os_walk :: "(string \<Rightarrow> bool) \<Rightarrow> string \<Rightarrow> dir_tree \<Rightarrow> (string \<times> string list) list" where
  "os_walk keep top_dir (Dir files subs) =
     (top_dir, files) #
     concat (map (\<lambda>(d, t). os_walk keep (os_path_join top_dir d) t)
                 (filter (\<lambda>(d, t). keep d) subs))"

definition startswith_dot :: "string \<Rightarrow> bool" where
  "startswith_dot d = (take 1 d = ''.'')"

text \<open>The pruning of the indexer, and the pruning of the two duplicate scanners.\<close>

definition indexer_keeps :: "string \<Rightarrow> bool" where
  "indexer_keeps d =
     (\<not> startswith_dot d \<and>
      d \<notin> set [''$RECYCLE.BIN'', ''System Volume Information'', ''Windows'', ''ProgramData'',
                 ''Program Files'', ''Program Files (x86)'', ''AppData'', ''node_modules'',
                 ''.git'', ''__pycache__''])"

definition scanner_keeps :: "string \<Rightarrow> bool" where
  "scanner_keeps d = (\<not> startswith_dot d)"

text \<open>
  The cooperative flag \<open>should_stop\<close> is written by another thread (\<open>stop()\<close> sets it and
  nothing resets it). A schedule says when the write becomes visible: with \<open>Some n\<close> the
  first \<open>n\<close> reads of the flag by the task see \<open>False\<close> and every later read sees \<open>True\<close>;
  with \<open>None\<close> the flag is never set. Each task counts its reads of the flag.
\<close>

type_synonym stop_schedule = "nat option"

definition should_stop :: "stop_schedule \<Rightarrow> nat \<Rightarrow> bool" where
  "should_stop k t = (case k of None \<Rightarrow> False | Some n \<Rightarrow> n \<le> t)"

section \<open>DatabaseManager\<close>

text \<open>
  The table \<open>file_index\<close>: its rows in insertion order, one per path (\<open>path\<close> is the
  primary key). The column \<open>last_checked\<close> is never read back and is left out.
  \<open>INSERT OR REPLACE\<close> removes the row of the same path and appends the new one.
  Failures of the database itself are not modelled.
\<close>

type_synonym file_index = "FileEntry list"

definition insert_or_replace :: "file_index \<Rightarrow> FileEntry \<Rightarrow> file_index" where
  "insert_or_replace db f = filter (\<lambda>r. fe_path r \<noteq> fe_path f) db @ [f]"

definition save_file_index :: "file_index \<Rightarrow> FileEntry list \<Rightarrow> file_index" where
  "save_file_index db files = foldl insert_or_replace db files"

definition load_file_index :: "file_index \<Rightarrow> FileEntry list" where
  "load_file_index db = db"

definition get_indexed_paths :: "file_index \<Rightarrow> string set" where
  "get_indexed_paths db = fe_path ` set db"

definition remove_deleted_files :: "file_index \<Rightarrow> string set \<Rightarrow> file_index" where
  "remove_deleted_files db existing_paths =
     (let indexed_paths = fe_path ` set db;
          deleted_paths = indexed_paths - existing_paths
      in filter (\<lambda>r. fe_path r \<notin> deleted_paths) db)"

record cached_info =
  ci_size :: int
  ci_modified :: real

definition get_file_info :: "file_index \<Rightarrow> string \<Rightarrow> cached_info option" where
  "get_file_info db p =
     (case find (\<lambda>r. fe_path r = p) db of
        None \<Rightarrow> None
      | Some r \<Rightarrow> Some \<lparr>ci_size = fe_size r, ci_modified = fe_modified r\<rparr>)"

section \<open>SystemIndexerThread\<close>

datatype indexer_event =
    ProgressLoadingCache
  | ProgressLoaded nat
  | ProgressIndexing string
  | ProgressChecking
  | ProgressChecked nat
  | ProgressAdded nat
  | ProgressUpdated nat
  | FilesIndexed nat
  | IndexingComplete nat

text \<open>
  The state of an indexer thread: its fields, the database file it writes, the signals
  emitted so far, the number of reads of \<open>should_stop\<close>, the paths handed to \<open>os.stat\<close>
  so far, whether the single-shot timer for \<open>incremental_update\<close> was set, and the local
  variables of \<open>full_index\<close> and of \<open>incremental_update\<close>.
\<close>

record indexer =
  ix_index :: "FileEntry list"
  ix_db_manager :: bool
  ix_db :: file_index
  ix_events :: "indexer_event list"
  ix_reads :: nat
  ix_stat_calls :: "string list"
  ix_timer :: bool
  ix_total_files :: nat
  ix_batch :: "FileEntry list"
  ix_existing_paths :: "string set"
  ix_new_files :: "FileEntry list"
  ix_updated_files :: "FileEntry list"
  ix_checked :: nat

definition read_flag :: "indexer \<Rightarrow> indexer" where
  "read_flag s = s\<lparr>ix_reads := ix_reads s + 1\<rparr>"

definition emit :: "indexer_event \<Rightarrow> indexer \<Rightarrow> indexer" where
  "emit e s = s\<lparr>ix_events := ix_events s @ [e]\<rparr>"

definition make_entry :: "string \<Rightarrow> string \<Rightarrow> stat_result \<Rightarrow> FileEntry" where
  "make_entry filename filepath st =
     \<lparr>fe_name = filename, fe_path = filepath,
      fe_extension = lower (snd (os_path_splitext False filename)),
      fe_size = st_size st, fe_modified = st_mtime st, fe_is_dir = False\<rparr>"

subsection \<open>full_index\<close>

text \<open>
  The body of \<open>for filename in files\<close> after the flag was read clear. \<open>os.stat\<close> is a
  function from paths to results, \<open>None\<close> where it raises (the \<open>except\<close> clause continues).
\<close>

definition full_visit ::
  "(string \<Rightarrow> stat_result option) \<Rightarrow> string \<Rightarrow> string \<Rightarrow> indexer \<Rightarrow> indexer" where
  "full_visit stat root_dir filename s =
     (let filepath = os_path_join root_dir filename;
          s1 = s\<lparr>ix_stat_calls := ix_stat_calls s @ [filepath]\<rparr>
      in case stat filepath of
           None \<Rightarrow> s1
         | Some st \<Rightarrow>
             (let entry = make_entry filename filepath st;
                  s2 = s1\<lparr>ix_index := ix_index s1 @ [entry],
                          ix_batch := ix_batch s1 @ [entry],
                          ix_total_files := ix_total_files s1 + 1\<rparr>
              in if length (ix_batch s2) \<ge> 500
                 then emit (FilesIndexed (ix_total_files s2))
                        (s2\<lparr>ix_db := save_file_index (ix_db s2) (ix_batch s2), ix_batch := []\<rparr>)
                 else s2))"

fun full_files ::
  "stop_schedule \<Rightarrow> (string \<Rightarrow> stat_result option) \<Rightarrow> string \<Rightarrow> string list \<Rightarrow> indexer \<Rightarrow> indexer" where
  "full_files k stat root_dir [] s = s"
| "full_files k stat root_dir (filename # rest) s =
     (if should_stop k (ix_reads s) then read_flag s
      else full_files k stat root_dir rest (full_visit stat root_dir filename (read_flag s)))"

fun full_dirs ::
  "stop_schedule \<Rightarrow> (string \<Rightarrow> stat_result option) \<Rightarrow> (string \<times> string list) list \<Rightarrow> indexer \<Rightarrow> indexer" where
  "full_dirs k stat [] s = s"
| "full_dirs k stat ((root_dir, files) # rest) s =
     (if should_stop k (ix_reads s) then read_flag s
      else full_dirs k stat rest (full_files k stat root_dir files (read_flag s)))"

fun full_drives ::
  "stop_schedule \<Rightarrow> (string \<Rightarrow> stat_result option) \<Rightarrow> (string \<times> dir_tree) list \<Rightarrow> indexer \<Rightarrow> indexer" where
  "full_drives k stat [] s = s"
| "full_drives k stat ((drive, tree) # rest) s =
     (if should_stop k (ix_reads s) then read_flag s
      else full_drives k stat rest
             (full_dirs k stat (os_walk indexer_keeps drive tree)
                (emit (ProgressIndexing drive) (read_flag s))))"

text \<open>
  \<open>full_index\<close>; \<open>drives\<close> is what \<open>get_available_drives\<close> returns, each with its tree.
\<close>

definition full_index ::
  "stop_schedule \<Rightarrow> (string \<Rightarrow> stat_result option) \<Rightarrow> (string \<times> dir_tree) list \<Rightarrow> indexer \<Rightarrow> indexer" where
  "full_index k stat drives s =
     (let s1 = full_drives k stat drives (s\<lparr>ix_total_files := 0, ix_batch := []\<rparr>);
          s2 = (if ix_batch s1 \<noteq> []
                then s1\<lparr>ix_db := save_file_index (ix_db s1) (ix_batch s1)\<rparr> else s1)
      in if \<not> should_stop k (ix_reads s2)
         then emit (IndexingComplete (ix_total_files s2)) (read_flag s2)
         else read_flag s2)"

subsection \<open>incremental_update\<close>

text \<open>\<open>self.index[i] = entry\<close> at the first \<open>i\<close> whose path is \<open>filepath\<close>, if there is one.\<close>

fun replace_first :: "string \<Rightarrow> FileEntry \<Rightarrow> FileEntry list \<Rightarrow> FileEntry list" where
  "replace_first filepath entry [] = []"
| "replace_first filepath entry (f # fs) =
     (if fe_path f = filepath then entry # fs else f # replace_first filepath entry fs)"

definition count_checked :: "indexer \<Rightarrow> indexer" where
  "count_checked s =
     (let s1 = s\<lparr>ix_checked := ix_checked s + 1\<rparr>
      in if ix_checked s1 mod 1000 = 0 then emit (ProgressChecked (ix_checked s1)) s1 else s1)"

text \<open>
  The body of \<open>for filename in files\<close> after the flag was read clear. The path enters
  \<open>existing_paths\<close> before \<open>os.stat\<close> is called; a failing \<open>os.stat\<close> skips the rest.
\<close>

definition incremental_visit ::
  "(string \<Rightarrow> stat_result option) \<Rightarrow> string set \<Rightarrow> string \<Rightarrow> string \<Rightarrow> indexer \<Rightarrow> indexer" where
  "incremental_visit stat indexed_paths root_dir filename s =
     (let filepath = os_path_join root_dir filename;
          s1 = s\<lparr>ix_existing_paths := insert filepath (ix_existing_paths s),
                 ix_stat_calls := ix_stat_calls s @ [filepath]\<rparr>
      in case stat filepath of
           None \<Rightarrow> s1
         | Some st \<Rightarrow>
             (if filepath \<notin> indexed_paths then
                (let entry = make_entry filename filepath st
                 in count_checked
                      (s1\<lparr>ix_new_files := ix_new_files s1 @ [entry],
                          ix_index := ix_index s1 @ [entry]\<rparr>))
              else
                (case get_file_info (ix_db s1) filepath of
                   None \<Rightarrow> count_checked s1
                 | Some info \<Rightarrow>
                     (if st_size st \<noteq> ci_size info \<or> \<bar>float_sub (st_mtime st) (ci_modified info)\<bar> > 1 then
                        (let entry = make_entry filename filepath st
                         in count_checked
                              (s1\<lparr>ix_updated_files := ix_updated_files s1 @ [entry],
                                  ix_index := replace_first filepath entry (ix_index s1)\<rparr>))
                      else count_checked s1))))"

fun incremental_files ::
  "stop_schedule \<Rightarrow> (string \<Rightarrow> stat_result option) \<Rightarrow> string set \<Rightarrow> string \<Rightarrow> string list
     \<Rightarrow> indexer \<Rightarrow> indexer" where
  "incremental_files k stat indexed_paths root_dir [] s = s"
| "incremental_files k stat indexed_paths root_dir (filename # rest) s =
     (if should_stop k (ix_reads s) then read_flag s
      else incremental_files k stat indexed_paths root_dir rest
             (incremental_visit stat indexed_paths root_dir filename (read_flag s)))"

fun incremental_dirs ::
  "stop_schedule \<Rightarrow> (string \<Rightarrow> stat_result option) \<Rightarrow> string set \<Rightarrow> (string \<times> string list) list
     \<Rightarrow> indexer \<Rightarrow> indexer" where
  "incremental_dirs k stat indexed_paths [] s = s"
| "incremental_dirs k stat indexed_paths ((root_dir, files) # rest) s =
     (if should_stop k (ix_reads s) then read_flag s
      else incremental_dirs k stat indexed_paths rest
             (incremental_files k stat indexed_paths root_dir files (read_flag s)))"

fun incremental_drives ::
  "stop_schedule \<Rightarrow> (string \<Rightarrow> stat_result option) \<Rightarrow> string set \<Rightarrow> (string \<times> dir_tree) list
     \<Rightarrow> indexer \<Rightarrow> indexer" where
  "incremental_drives k stat indexed_paths [] s = s"
| "incremental_drives k stat indexed_paths ((drive, tree) # rest) s =
     (if should_stop k (ix_reads s) then read_flag s
      else incremental_drives k stat indexed_paths rest
             (incremental_dirs k stat indexed_paths (os_walk indexer_keeps drive tree) (read_flag s)))"

text \<open>
  The part of \<open>incremental_update\<close> after the walk: the two saves, the pruning (not
  guarded by the flag), and the completion signal (guarded).
\<close>

definition incremental_finish :: "stop_schedule \<Rightarrow> indexer \<Rightarrow> indexer" where
  "incremental_finish k s1 =
     (let s2 = (if ix_new_files s1 \<noteq> []
                then emit (ProgressAdded (length (ix_new_files s1)))
                       (s1\<lparr>ix_db := save_file_index (ix_db s1) (ix_new_files s1)\<rparr>)
                else s1);
          s3 = (if ix_updated_files s2 \<noteq> []
                then emit (ProgressUpdated (length (ix_updated_files s2)))
                       (s2\<lparr>ix_db := save_file_index (ix_db s2) (ix_updated_files s2)\<rparr>)
                else s2);
          s4 = s3\<lparr>ix_db := remove_deleted_files (ix_db s3) (ix_existing_paths s3)\<rparr>
      in if \<not> should_stop k (ix_reads s4)
         then emit (IndexingComplete (length (ix_index s4))) (read_flag s4)
         else read_flag s4)"

definition incremental_walk ::
  "stop_schedule \<Rightarrow> (string \<Rightarrow> stat_result option) \<Rightarrow> (string \<times> dir_tree) list \<Rightarrow> indexer \<Rightarrow> indexer" where
  "incremental_walk k stat drives s =
     (let s0 = emit ProgressChecking s;
          indexed_paths = get_indexed_paths (ix_db s0)
      in incremental_drives k stat indexed_paths drives
           (s0\<lparr>ix_existing_paths := {}, ix_new_files := [], ix_updated_files := [],
               ix_checked := 0\<rparr>))"

definition incremental_update ::
  "stop_schedule \<Rightarrow> (string \<Rightarrow> stat_result option) \<Rightarrow> (string \<times> dir_tree) list \<Rightarrow> indexer \<Rightarrow> indexer" where
  "incremental_update k stat drives s =
     (if \<not> ix_db_manager s then s
      else incremental_finish k (incremental_walk k stat drives s))"

subsection \<open>run\<close>

text \<open>
  A thread as \<open>__init__\<close> leaves it, over the database file \<open>db\<close>.
\<close>

definition SystemIndexerThread_init :: "file_index \<Rightarrow> indexer" where
  "SystemIndexerThread_init db =
     \<lparr>ix_index = [], ix_db_manager = False, ix_db = db, ix_events = [], ix_reads = 0,
      ix_stat_calls = [], ix_timer = False, ix_total_files = 0, ix_batch = [],
      ix_existing_paths = {}, ix_new_files = [], ix_updated_files = [], ix_checked = 0\<rparr>"

text \<open>
  \<open>run\<close>: the connection is opened, the index cleared, and unless a full index is forced
  the cache is loaded; a cache of more than 1000 entries is published and the timer for
  \<open>incremental_update\<close> is set, otherwise \<open>full_index\<close> runs. The \<open>finally\<close> clause closes
  the connection on both paths.
\<close>

definition run ::
  "stop_schedule \<Rightarrow> (string \<Rightarrow> stat_result option) \<Rightarrow> (string \<times> dir_tree) list \<Rightarrow> bool
     \<Rightarrow> indexer \<Rightarrow> indexer" where
  "run k stat drives force_full_index s =
     (let s0 = s\<lparr>ix_db_manager := True, ix_index := []\<rparr>
      in if \<not> force_full_index then
           (let s1 = emit ProgressLoadingCache s0;
                cached_files = load_file_index (ix_db s1)
            in if length cached_files > 1000 then
                 (emit (FilesIndexed (length cached_files))
                    ((emit (ProgressLoaded (length cached_files)) s1)\<lparr>ix_index := cached_files\<rparr>))
                 \<lparr>ix_timer := True, ix_db_manager := False\<rparr>
               else (full_index k stat drives s1)\<lparr>ix_db_manager := False\<rparr>)
         else (full_index k stat drives s0)\<lparr>ix_db_manager := False\<rparr>)"

section \<open>FileSearchThread\<close>

datatype search_event = ResultsReady "FileEntry list" | SearchComplete nat

record FileSearchThread =
  fs_index :: "FileEntry list"
  fs_query :: string
  fs_folder_filter :: string

definition FileSearchThread_init :: "FileEntry list \<Rightarrow> string \<Rightarrow> string \<Rightarrow> FileSearchThread" where
  "FileSearchThread_init idx q ff =
     \<lparr>fs_index = idx, fs_query = lower q, fs_folder_filter = lower ff\<rparr>"

record search_state =
  ss_results :: "FileEntry list"
  ss_events :: "search_event list"
  ss_reads :: nat

text \<open>The body of the \<open>for entry in self.index\<close> loop, after the flag was read clear.\<close>

definition search_step :: "FileSearchThread \<Rightarrow> FileEntry \<Rightarrow> search_state \<Rightarrow> search_state" where
  "search_step th entry s =
     (if str_in (fs_query th) (lower (fe_name entry)) then
        (if fs_folder_filter th = [] \<or> str_in (fs_folder_filter th) (lower (fe_path entry)) then
           (let results = ss_results s @ [entry]
            in if length results mod 100 = 0
               then s\<lparr>ss_results := [], ss_events := ss_events s @ [ResultsReady results]\<rparr>
               else s\<lparr>ss_results := results\<rparr>)
         else s)
      else s)"

fun search_loop ::
  "stop_schedule \<Rightarrow> FileSearchThread \<Rightarrow> FileEntry list \<Rightarrow> search_state \<Rightarrow> search_state" where
  "search_loop k th [] s = s"
| "search_loop k th (entry # rest) s =
     (if should_stop k (ss_reads s) then s\<lparr>ss_reads := ss_reads s + 1\<rparr>
      else search_loop k th rest (search_step th entry (s\<lparr>ss_reads := ss_reads s + 1\<rparr>)))"

text \<open>
  \<open>FileSearchThread.run\<close>. After the loop, \<open>results and not self.should_stop\<close> reads the
  flag only when \<open>results\<close> is not empty; the last \<open>if\<close> reads it once more.
\<close>

definition search_run :: "stop_schedule \<Rightarrow> FileSearchThread \<Rightarrow> search_state" where
  "search_run k th =
     (let s1 = search_loop k th (fs_index th) \<lparr>ss_results = [], ss_events = [], ss_reads = 0\<rparr>;
          s2 = (if ss_results s1 \<noteq> [] then
                  (if \<not> should_stop k (ss_reads s1)
                   then s1\<lparr>ss_events := ss_events s1 @ [ResultsReady (ss_results s1)],
                           ss_reads := ss_reads s1 + 1\<rparr>
                   else s1\<lparr>ss_reads := ss_reads s1 + 1\<rparr>)
                else s1)
      in if \<not> should_stop k (ss_reads s2)
         then (let total = length (filter (\<lambda>r. str_in (fs_query th) (lower (fe_name r))) (fs_index th))
               in s2\<lparr>ss_events := ss_events s2 @ [SearchComplete total], ss_reads := ss_reads s2 + 1\<rparr>)
         else s2\<lparr>ss_reads := ss_reads s2 + 1\<rparr>)"

text \<open>
  The search predicate of the specification: the query occurs in the name, and the
  folder filter, when one is supplied, occurs in the path; both without regard to case.
\<close>

definition search_predicate :: "string \<Rightarrow> string option \<Rightarrow> FileEntry \<Rightarrow> bool" where
  "search_predicate q ff r =
     (str_in (lower q) (lower (fe_name r))
      \<and> (case ff of None \<Rightarrow> True | Some f \<Rightarrow> str_in (lower f) (lower (fe_path r))))"

section \<open>FileDeletionThread\<close>

text \<open>
  The part of the file system that deletion reads and writes: which paths exist
  (\<open>os.path.exists\<close>), which are writable (\<open>os.access(path, os.W_OK)\<close>), and for which
  \<open>os.remove\<close> returns instead of raising. A successful remove makes the path absent.
\<close>

record del_fs =
  fs_exists :: "string \<Rightarrow> bool"
  fs_writable :: "string \<Rightarrow> bool"
  fs_remove_ok :: "string \<Rightarrow> bool"

datatype deletion_event = DelProgress nat nat | DeletionComplete nat nat

record del_state =
  dl_fs :: del_fs
  dl_deleted_count :: nat
  dl_failed_count :: nat
  dl_events :: "deletion_event list"
  dl_reads :: nat

text \<open>
  One iteration of the loop in \<open>FileDeletionThread.run\<close>, after the flag was read clear.
  The two \<open>continue\<close> statements leave the iteration before \<open>self.progress.emit\<close>.
\<close>

definition delete_step :: "nat \<Rightarrow> nat \<Rightarrow> DuplicateFile \<Rightarrow> del_state \<Rightarrow> del_state" where
  "delete_step total_n i file s =
     (if \<not> fs_exists (dl_fs s) (df_path file) then
        s\<lparr>dl_failed_count := dl_failed_count s + 1\<rparr>
      else if \<not> fs_writable (dl_fs s) (df_path file) then
        s\<lparr>dl_failed_count := dl_failed_count s + 1\<rparr>
      else if fs_remove_ok (dl_fs s) (df_path file) then
        s\<lparr>dl_fs := (dl_fs s)\<lparr>fs_exists := (fs_exists (dl_fs s))(df_path file := False)\<rparr>,
          dl_deleted_count := dl_deleted_count s + 1,
          dl_events := dl_events s @ [DelProgress (i + 1) total_n]\<rparr>
      else
        s\<lparr>dl_failed_count := dl_failed_count s + 1,
          dl_events := dl_events s @ [DelProgress (i + 1) total_n]\<rparr>)"

fun delete_loop ::
  "stop_schedule \<Rightarrow> nat \<Rightarrow> nat \<Rightarrow> DuplicateFile list \<Rightarrow> del_state \<Rightarrow> del_state" where
  "delete_loop k total_n i [] s = s"
| "delete_loop k total_n i (file # rest) s =
     (if should_stop k (dl_reads s) then s\<lparr>dl_reads := dl_reads s + 1\<rparr>
      else delete_loop k total_n (i + 1) rest
             (delete_step total_n i file (s\<lparr>dl_reads := dl_reads s + 1\<rparr>)))"

definition deletion_run :: "stop_schedule \<Rightarrow> del_fs \<Rightarrow> DuplicateFile list \<Rightarrow> del_state" where
  "deletion_run k fs files_to_delete =
     (let total_n = length files_to_delete;
          s = delete_loop k total_n 0 files_to_delete
                \<lparr>dl_fs = fs, dl_deleted_count = 0, dl_failed_count = 0, dl_events = [], dl_reads = 0\<rparr>
      in if \<not> should_stop k (dl_reads s)
         then s\<lparr>dl_events := dl_events s @ [DeletionComplete (dl_deleted_count s) (dl_failed_count s)],
                dl_reads := dl_reads s + 1\<rparr>
         else s\<lparr>dl_reads := dl_reads s + 1\<rparr>)"

text \<open>A path that the loop will remove when it reaches it: present, writable, removable.\<close>

definition deletable :: "del_fs \<Rightarrow> string \<Rightarrow> bool" where
  "deletable fs p = (fs_exists fs p \<and> fs_writable fs p \<and> fs_remove_ok fs p)"

text \<open>Inputs used to evaluate the model.\<close>

definition entry_a_txt :: FileEntry where
  "entry_a_txt =
     \<lparr>fe_name = ''a.txt'', fe_path = ''/home/a.txt'', fe_extension = ''.txt'',
      fe_size = 1, fe_modified = 0, fe_is_dir = False\<rparr>"

definition only_tmp_b :: del_fs where
  "only_tmp_b =
     \<lparr>fs_exists = (\<lambda>p. p = ''/tmp/b''), fs_writable = (\<lambda>p. True), fs_remove_ok = (\<lambda>p. True)\<rparr>"

declare os_walk.simps [simp del]

text \<open>A cache of exactly 1000 rows with pairwise different paths.\<close>

definition cached_entry :: "nat \<Rightarrow> FileEntry" where
  "cached_entry i =
     \<lparr>fe_name = replicate (Suc i) (CHR ''a''), fe_path = ''/'' @ replicate (Suc i) (CHR ''a''),
      fe_extension = [], fe_size = 1, fe_modified = 0, fe_is_dir = False\<rparr>"

definition cache_of_1000 :: file_index where
  "cache_of_1000 = map cached_entry [0..<1000]"

text \<open>
  Auxiliary notions for the incremental scan: an entry carries the size and time of a
  stat result; the cached metadata an entry or a stat result would be stored as; and the
  invariant of the walk over the lists \<open>new_files\<close>, \<open>updated_files\<close> and the set
  \<open>existing_paths\<close>, relative to the database at the start of the walk.
\<close>

definition from_stat :: "stat_result \<Rightarrow> FileEntry \<Rightarrow> bool" where
  "from_stat st e = (fe_size e = st_size st \<and> fe_modified e = st_mtime st)"

definition walk_inv :: "(string \<Rightarrow> stat_result option) \<Rightarrow> file_index \<Rightarrow> indexer \<Rightarrow> bool" where
  "walk_inv stat db0 s =
     (ix_db s = db0
      \<and> (\<forall>e \<in> set (ix_new_files s).
            fe_path e \<in> ix_existing_paths s \<and> fe_path e \<notin> get_indexed_paths db0
            \<and> (\<exists>st. stat (fe_path e) = Some st \<and> from_stat st e))
      \<and> (\<forall>e \<in> set (ix_updated_files s).
            fe_path e \<in> ix_existing_paths s
            \<and> (\<exists>st info. stat (fe_path e) = Some st \<and> from_stat st e
                  \<and> get_file_info db0 (fe_path e) = Some info
                  \<and> (st_size st \<noteq> ci_size info \<or> \<bar>float_sub (st_mtime st) (ci_modified info)\<bar> > 1)))
      \<and> (\<forall>p \<in> ix_existing_paths s. \<forall>st. stat p = Some st \<longrightarrow>
            (p \<notin> get_indexed_paths db0 \<longrightarrow> (\<exists>e \<in> set (ix_new_files s). fe_path e = p))
            \<and> (\<forall>info. get_file_info db0 p = Some info
                  \<and> (st_size st \<noteq> ci_size info \<or> \<bar>float_sub (st_mtime st) (ci_modified info)\<bar> > 1)
                  \<longrightarrow> (\<exists>e \<in> set (ix_updated_files s). fe_path e = p))))"

definition info_of_stat :: "stat_result \<Rightarrow> cached_info" where
  "info_of_stat st = \<lparr>ci_size = st_size st, ci_modified = st_mtime st\<rparr>"

definition info_of :: "FileEntry \<Rightarrow> cached_info" where
  "info_of e = \<lparr>ci_size = fe_size e, ci_modified = fe_modified e\<rparr>"

text \<open>
  A small scenario: a tree with the files \<open>/a\<close>, \<open>/x/b\<close>, \<open>/x/c\<close> and \<open>/x/gone\<close> (whose
  stat fails), every file of time 5 and of size the length of its path; and a cache that
  knows \<open>/x/b\<close> (same size, time 4), \<open>/x/c\<close> (another size) and \<open>/old\<close> (no longer there).
\<close>

definition example_stat :: "string \<Rightarrow> stat_result option" where
  "example_stat p =
     (if p = ''/x/gone'' then None else Some \<lparr>st_size = int (length p), st_mtime = 5\<rparr>)"

definition example_tree :: dir_tree where
  "example_tree = Dir [''a''] [(''x'', Dir [''b'', ''c'', ''gone''] [])]"

definition cached_file :: "string \<Rightarrow> int \<Rightarrow> real \<Rightarrow> FileEntry" where
  "cached_file p n t =
     \<lparr>fe_name = os_path_basename p, fe_path = p, fe_extension = [], fe_size = n,
      fe_modified = t, fe_is_dir = False\<rparr>"

definition example_indexer :: indexer where
  "example_indexer =
     (SystemIndexerThread_init
        [cached_file ''/x/b'' 4 4, cached_file ''/x/c'' 9 5, cached_file ''/old'' 1 1])
     \<lparr>ix_db_manager := True\<rparr>"

section \<open>Regular expressions of normalize_filename\<close>

text \<open>
  The six patterns use only: a literal character (compared without regard to case under
  \<open>re.IGNORECASE\<close>), \<open>\s*\<close>, \<open>\d+\<close> and \<open>$\<close>. On the code points below 256, \<open>\s\<close> matches
  the characters 9 to 13, 28 to 32, 0x85 and 0xA0, and \<open>\d\<close> matches \<open>0\<close> to \<open>9\<close>.
\<close>

definition is_space :: "char \<Rightarrow> bool" where
  "is_space c =
     (let n = (of_char c :: nat)
      in (9 \<le> n \<and> n \<le> 13) \<or> (28 \<le> n \<and> n \<le> 32) \<or> n = 133 \<or> n = 160)"

definition is_digit :: "char \<Rightarrow> bool" where
  "is_digit c = (let n = (of_char c :: nat) in 48 \<le> n \<and> n \<le> 57)"

datatype char_class = Space | Digit

fun in_class :: "char_class \<Rightarrow> char \<Rightarrow> bool" where
  "in_class Space c = is_space c"
| "in_class Digit c = is_digit c"

datatype atom = Lit char | Star char_class | Plus char_class | Eol

text \<open>
  A backtracking matcher: the list of the remainders of the input after each way of
  matching, in the order the engine tries them. A greedy repetition tries the longest run
  first. \<open>$\<close> matches at the end of the string and just before a newline that ends it.
\<close>

fun star_rems :: "(char \<Rightarrow> bool) \<Rightarrow> string \<Rightarrow> string list" where
  "star_rems P [] = [[]]"
| "star_rems P (c # cs) = (if P c then star_rems P cs @ [c # cs] else [c # cs])"

fun step :: "atom \<Rightarrow> string \<Rightarrow> string list" where
  "step (Lit l) [] = []"
| "step (Lit l) (c # cs) = (if lower_char c = lower_char l then [cs] else [])"
| "step (Star cl) s = star_rems (in_class cl) s"
| "step (Plus cl) [] = []"
| "step (Plus cl) (c # cs) = (if in_class cl c then star_rems (in_class cl) cs else [])"
| "step Eol s = (if s = [] \<or> s = [CHR 0x0A] then [s] else [])"

fun match_here :: "atom list \<Rightarrow> string \<Rightarrow> string list" where
  "match_here [] s = [s]"
| "match_here (a # as) s = concat (map (match_here as) (step a s))"

text \<open>
  \<open>re.sub(pattern, '', s)\<close> for a pattern that matches no empty string: scan from the
  left; where the pattern matches, drop the matched text and go on after it.
\<close>

function re_sub :: "atom list \<Rightarrow> string \<Rightarrow> string" where
  "re_sub p [] = []"
| "re_sub p (c # cs) =
     (case match_here p (c # cs) of
        [] \<Rightarrow> c # re_sub p cs
      | r # _ \<Rightarrow> if length r < length (c # cs) then re_sub p r else c # re_sub p cs)"
  by pat_completeness auto
termination
  by (relation "measure (\<lambda>(p, s). length s)") auto

definition patterns :: "atom list list" where
  "patterns =
     [[Star Space, Lit (CHR ''(''), Plus Digit, Lit (CHR '')''), Eol],
      [Star Space, Lit (CHR ''-''), Star Space,
         Lit (CHR ''C''), Lit (CHR ''o''), Lit (CHR ''p''), Lit (CHR ''y''), Eol],
      [Star Space, Lit (CHR ''C''), Lit (CHR ''o''), Lit (CHR ''p''), Lit (CHR ''y''), Eol],
      [Lit (CHR ''_''), Lit (CHR ''c''), Lit (CHR ''o''), Lit (CHR ''p''), Lit (CHR ''y''), Eol],
      [Star Space, Lit (CHR ''-''), Star Space, Plus Digit, Eol],
      [Lit (CHR ''_''), Plus Digit, Eol]]"

section \<open>FastDuplicateScannerThread\<close>

text \<open>
  \<open>normalize_filename\<close>. The platform decides the separators of \<open>os.path.splitext\<close> and
  the field \<open>case_sensitive\<close>, which \<open>__init__\<close> sets to \<open>sys.platform != 'win32'\<close>.
\<close>

definition normalize_filename :: "bool \<Rightarrow> string \<Rightarrow> string" where
  "normalize_filename win32 filename =
     (let case_sensitive = \<not> win32;
          (name, ext) = os_path_splitext win32 filename;
          name = foldl (\<lambda>name pattern. re_sub pattern name) name patterns
      in if \<not> case_sensitive then lower name @ lower ext else name @ ext)"

text \<open>
  Dictionaries that keep insertion order: \<open>d[k].append(v)\<close> on a \<open>defaultdict(list)\<close>, and
  \<open>d[k] = v\<close>.
\<close>

fun dict_append :: "'k \<Rightarrow> 'v \<Rightarrow> ('k \<times> 'v list) list \<Rightarrow> ('k \<times> 'v list) list" where
  "dict_append k v [] = [(k, [v])]"
| "dict_append k v ((k', vs) # d) =
     (if k' = k then (k', vs @ [v]) # d else (k', vs) # dict_append k v d)"

fun dict_set :: "'k \<Rightarrow> 'v \<Rightarrow> ('k \<times> 'v) list \<Rightarrow> ('k \<times> 'v) list" where
  "dict_set k v [] = [(k, v)]"
| "dict_set k v ((k', v') # d) =
     (if k' = k then (k', v) # d else (k', v') # dict_set k v d)"

datatype scan_event =
    ProgressScanningFiles
  | ProgressScanningBySize
  | ProgressHashing nat
  | ProgressHashed nat nat
  | FilesScanned nat
  | ScanComplete "(string \<times> DuplicateFile list) list"

text \<open>
  The state of a duplicate scan (either mode): the local dictionaries and counters of
  \<open>run\<close>, the signals emitted, the number of reads of \<open>should_stop\<close>, the paths handed
  to \<open>os.stat\<close> and to \<open>hash_file\<close>, and whether \<open>run\<close> has executed \<open>return\<close>.
  The key of \<open>file_map\<close> is the tuple \<open>(normalized,)\<close> or \<open>(normalized, size)\<close>.
\<close>

record scanner =
  sc_file_map :: "((string \<times> int option) \<times> DuplicateFile list) list"
  sc_size_map :: "(int \<times> string list) list"
  sc_hash_map :: "(string \<times> DuplicateFile list) list"
  sc_total_scanned :: nat
  sc_hashed_count :: nat
  sc_events :: "scan_event list"
  sc_reads :: nat
  sc_stat_calls :: "string list"
  sc_hash_calls :: "string list"
  sc_returned :: bool

definition scanner_start :: "scan_event \<Rightarrow> scanner" where
  "scanner_start e =
     \<lparr>sc_file_map = [], sc_size_map = [], sc_hash_map = [], sc_total_scanned = 0,
      sc_hashed_count = 0, sc_events = [e], sc_reads = 0, sc_stat_calls = [],
      sc_hash_calls = [], sc_returned = False\<rparr>"

definition sc_read :: "scanner \<Rightarrow> scanner" where
  "sc_read s = s\<lparr>sc_reads := sc_reads s + 1\<rparr>"

definition sc_emit :: "scan_event \<Rightarrow> scanner \<Rightarrow> scanner" where
  "sc_emit e s = s\<lparr>sc_events := sc_events s @ [e]\<rparr>"

definition count_scanned :: "scanner \<Rightarrow> scanner" where
  "count_scanned s =
     (let s1 = s\<lparr>sc_total_scanned := sc_total_scanned s + 1\<rparr>
      in if sc_total_scanned s1 mod 100 = 0 then sc_emit (FilesScanned (sc_total_scanned s1)) s1
         else s1)"

definition fast_visit ::
  "bool \<Rightarrow> bool \<Rightarrow> (string \<Rightarrow> stat_result option) \<Rightarrow> string \<Rightarrow> string \<Rightarrow> scanner \<Rightarrow> scanner" where
  "fast_visit win32 use_size_filter stat root_dir filename s =
     (let filepath = os_path_join root_dir filename;
          s1 = s\<lparr>sc_stat_calls := sc_stat_calls s @ [filepath]\<rparr>
      in case stat filepath of
           None \<Rightarrow> s1
         | Some st \<Rightarrow>
             (let normalized = normalize_filename win32 filename;
                  file_entry = \<lparr>df_name = filename, df_path = filepath, df_size = st_size st,
                                df_modified = st_mtime st, df_hash = None\<rparr>;
                  key = (if use_size_filter then (normalized, Some (st_size st))
                         else (normalized, None))
              in count_scanned (s1\<lparr>sc_file_map := dict_append key file_entry (sc_file_map s1)\<rparr>)))"

fun fast_files ::
  "stop_schedule \<Rightarrow> bool \<Rightarrow> bool \<Rightarrow> (string \<Rightarrow> stat_result option) \<Rightarrow> string \<Rightarrow> string list
     \<Rightarrow> scanner \<Rightarrow> scanner" where
  "fast_files k win32 usf stat root_dir [] s = s"
| "fast_files k win32 usf stat root_dir (filename # rest) s =
     (if should_stop k (sc_reads s) then (sc_read s)\<lparr>sc_returned := True\<rparr>
      else fast_files k win32 usf stat root_dir rest
             (fast_visit win32 usf stat root_dir filename (sc_read s)))"

fun fast_dirs ::
  "stop_schedule \<Rightarrow> bool \<Rightarrow> bool \<Rightarrow> (string \<Rightarrow> stat_result option) \<Rightarrow> (string \<times> string list) list
     \<Rightarrow> scanner \<Rightarrow> scanner" where
  "fast_dirs k win32 usf stat [] s = s"
| "fast_dirs k win32 usf stat ((root_dir, files) # rest) s =
     (if should_stop k (sc_reads s) then (sc_read s)\<lparr>sc_returned := True\<rparr>
      else (let s1 = fast_files k win32 usf stat root_dir files (sc_read s)
            in if sc_returned s1 then s1 else fast_dirs k win32 usf stat rest s1))"

text \<open>Step 2 of the fast scan: the groups of more than one file, under \<open>key[0]\<close>.\<close>

definition fast_duplicates ::
  "((string \<times> int option) \<times> DuplicateFile list) list \<Rightarrow> (string \<times> DuplicateFile list) list" where
  "fast_duplicates file_map =
     foldl (\<lambda>duplicates (key, files).
              if length files > 1 then dict_set (fst key) files duplicates else duplicates)
           [] file_map"

definition fast_run ::
  "stop_schedule \<Rightarrow> bool \<Rightarrow> bool \<Rightarrow> (string \<Rightarrow> stat_result option) \<Rightarrow> string \<Rightarrow> dir_tree \<Rightarrow> scanner" where
  "fast_run k win32 use_size_filter stat root_folder tree =
     (let s1 = fast_dirs k win32 use_size_filter stat (os_walk scanner_keeps root_folder tree)
                 (scanner_start ProgressScanningFiles)
      in if sc_returned s1 then s1
         else (let duplicates = fast_duplicates (sc_file_map s1)
               in if \<not> should_stop k (sc_reads s1)
                  then sc_emit (ScanComplete duplicates)
                         (sc_emit (FilesScanned (sc_total_scanned s1)) (sc_read s1))
                  else sc_read s1))"

section \<open>DeepDuplicateScannerThread\<close>

definition deep_visit ::
  "(string \<Rightarrow> stat_result option) \<Rightarrow> string \<Rightarrow> string \<Rightarrow> scanner \<Rightarrow> scanner" where
  "deep_visit stat root_dir filename s =
     (let filepath = os_path_join root_dir filename;
          s1 = s\<lparr>sc_stat_calls := sc_stat_calls s @ [filepath]\<rparr>
      in case stat filepath of
           None \<Rightarrow> s1
         | Some st \<Rightarrow>
             count_scanned
               (if st_size st > 0
                then s1\<lparr>sc_size_map := dict_append (st_size st) filepath (sc_size_map s1)\<rparr>
                else s1))"

fun deep_files ::
  "stop_schedule \<Rightarrow> (string \<Rightarrow> stat_result option) \<Rightarrow> string \<Rightarrow> string list \<Rightarrow> scanner \<Rightarrow> scanner" where
  "deep_files k stat root_dir [] s = s"
| "deep_files k stat root_dir (filename # rest) s =
     (if should_stop k (sc_reads s) then (sc_read s)\<lparr>sc_returned := True\<rparr>
      else deep_files k stat root_dir rest (deep_visit stat root_dir filename (sc_read s)))"

fun deep_dirs ::
  "stop_schedule \<Rightarrow> (string \<Rightarrow> stat_result option) \<Rightarrow> (string \<times> string list) list \<Rightarrow> scanner \<Rightarrow> scanner" where
  "deep_dirs k stat [] s = s"
| "deep_dirs k stat ((root_dir, files) # rest) s =
     (if should_stop k (sc_reads s) then (sc_read s)\<lparr>sc_returned := True\<rparr>
      else (let s1 = deep_files k stat root_dir files (sc_read s)
            in if sc_returned s1 then s1 else deep_dirs k stat rest s1))"

text \<open>
  \<open>[path for paths in size_map.values() if len(paths) > 1 for path in paths]\<close>
\<close>

definition files_to_hash :: "(int \<times> string list) list \<Rightarrow> string list" where
  "files_to_hash size_map =
     concat (map snd (filter (\<lambda>(sz, paths). length paths > 1) size_map))"

text \<open>
  One iteration of the hashing loop after the flag was read clear. \<open>hash_file\<close> is a
  function from paths to hex digests for the chosen algorithm, \<open>None\<close> where reading the
  file raises; any exception of the iteration continues with the next file.
\<close>

definition hash_step ::
  "nat \<Rightarrow> (string \<Rightarrow> stat_result option) \<Rightarrow> (string \<Rightarrow> string option) \<Rightarrow> string \<Rightarrow> scanner \<Rightarrow> scanner" where
  "hash_step n stat hash_file filepath s =
     (let s1 = s\<lparr>sc_hash_calls := sc_hash_calls s @ [filepath]\<rparr>
      in case hash_file filepath of
           None \<Rightarrow> s1
         | Some file_hash \<Rightarrow>
             (let s2 = s1\<lparr>sc_stat_calls := sc_stat_calls s1 @ [filepath]\<rparr>
              in case stat filepath of
                   None \<Rightarrow> s2
                 | Some st \<Rightarrow>
                     (let file_entry = \<lparr>df_name = os_path_basename filepath, df_path = filepath,
                                         df_size = st_size st, df_modified = st_mtime st,
                                         df_hash = Some file_hash\<rparr>;
                          s3 = s2\<lparr>sc_hash_map := dict_append file_hash file_entry (sc_hash_map s2),
                                  sc_hashed_count := sc_hashed_count s2 + 1\<rparr>
                      in if sc_hashed_count s3 mod 10 = 0
                         then sc_emit (ProgressHashed (sc_hashed_count s3) n) s3 else s3)))"

fun hash_loop ::
  "stop_schedule \<Rightarrow> nat \<Rightarrow> (string \<Rightarrow> stat_result option) \<Rightarrow> (string \<Rightarrow> string option) \<Rightarrow> string list
     \<Rightarrow> scanner \<Rightarrow> scanner" where
  "hash_loop k n stat hash_file [] s = s"
| "hash_loop k n stat hash_file (filepath # rest) s =
     (if should_stop k (sc_reads s) then (sc_read s)\<lparr>sc_returned := True\<rparr>
      else hash_loop k n stat hash_file rest (hash_step n stat hash_file filepath (sc_read s)))"

definition deep_run ::
  "stop_schedule \<Rightarrow> (string \<Rightarrow> stat_result option) \<Rightarrow> (string \<Rightarrow> string option) \<Rightarrow> string \<Rightarrow> dir_tree
     \<Rightarrow> scanner" where
  "deep_run k stat hash_file root_folder tree =
     (let s1 = deep_dirs k stat (os_walk scanner_keeps root_folder tree)
                 (scanner_start ProgressScanningBySize)
      in if sc_returned s1 then s1
         else (let to_hash = files_to_hash (sc_size_map s1);
                   s2 = hash_loop k (length to_hash) stat hash_file to_hash
                          (sc_emit (ProgressHashing (length to_hash)) s1)
               in if sc_returned s2 then s2
                  else (let duplicates = filter (\<lambda>(hash_val, files). length files > 1) (sc_hash_map s2)
                        in if \<not> should_stop k (sc_reads s2)
                           then sc_emit (ScanComplete duplicates) (sc_read s2)
                           else sc_read s2)))"

text \<open>
  Invariants of the deep scan. Phase 1: every bucket of \<open>size_map\<close> has a positive key
  and holds paths whose stat gives that size. Phase 2: every entry filed under a digest
  is the entry of a path that \<open>hash_file\<close> maps to that digest, carries the digest and
  the positive size that \<open>os.stat\<close> gives, and only candidates were hashed. No completion
  signal is emitted inside the loops.
\<close>

definition no_complete :: "scan_event list \<Rightarrow> bool" where
  "no_complete evs = (\<forall>e \<in> set evs. \<forall>d. e \<noteq> ScanComplete d)"

definition size_map_ok :: "(string \<Rightarrow> stat_result option) \<Rightarrow> (int \<times> string list) list \<Rightarrow> bool" where
  "size_map_ok stat m =
     (\<forall>(sz, paths) \<in> set m. sz > 0 \<and> (\<forall>p \<in> set paths. \<exists>st. stat p = Some st \<and> st_size st = sz))"

definition hash_map_ok ::
  "(string \<Rightarrow> stat_result option) \<Rightarrow> (string \<Rightarrow> string option)
     \<Rightarrow> (string \<times> DuplicateFile list) list \<Rightarrow> bool" where
  "hash_map_ok stat hash_file m =
     (\<forall>(h, files) \<in> set m. \<forall>f \<in> set files.
        df_hash f = Some h \<and> hash_file (df_path f) = Some h
        \<and> (\<exists>st. stat (df_path f) = Some st \<and> st_size st = df_size f) \<and> df_size f > 0)"

definition deep_inv1 :: "(string \<Rightarrow> stat_result option) \<Rightarrow> scanner \<Rightarrow> bool" where
  "deep_inv1 stat s =
     (size_map_ok stat (sc_size_map s) \<and> no_complete (sc_events s)
      \<and> sc_hash_calls s = [] \<and> sc_hash_map s = [])"

definition deep_inv2 ::
  "(string \<Rightarrow> stat_result option) \<Rightarrow> (string \<Rightarrow> string option)
     \<Rightarrow> (int \<times> string list) list \<Rightarrow> scanner \<Rightarrow> bool" where
  "deep_inv2 stat hash_file m s =
     (sc_size_map s = m \<and> hash_map_ok stat hash_file (sc_hash_map s)
      \<and> set (sc_hash_calls s) \<subseteq> set (files_to_hash m) \<and> no_complete (sc_events s))"

text \<open>
  A folder for the deep scan: three files of 4 bytes, two of them with equal content,
  one file of 7 bytes and two empty files.
\<close>

definition deep_example_stat :: "string \<Rightarrow> stat_result option" where
  "deep_example_stat p =
     (if p = ''/d.txt'' then Some \<lparr>st_size = 7, st_mtime = 1\<rparr>
      else if p = ''/e'' \<or> p = ''/f'' then Some \<lparr>st_size = 0, st_mtime = 1\<rparr>
      else Some \<lparr>st_size = 4, st_mtime = 1\<rparr>)"

definition deep_example_hash :: "string \<Rightarrow> string option" where
  "deep_example_hash p = (if p = ''/c.txt'' then Some ''h2'' else Some ''h1'')"

definition deep_example_tree :: dir_tree where
  "deep_example_tree = Dir [''a.txt'', ''b.txt'', ''c.txt'', ''d.txt'', ''e'', ''f''] []"

definition hashed_file :: "string \<Rightarrow> string \<Rightarrow> DuplicateFile" where
  "hashed_file p h =
     \<lparr>df_name = os_path_basename p, df_path = p, df_size = 4, df_modified = 1, df_hash = Some h\<rparr>"

text \<open>
  The index entry of a path: the first entry of the in-memory index with that path. The
  invariant of the walk over the in-memory index, relative to the index at the start:
  new entries are in the index; a path without collected entry keeps its index entry;
  a path with an updated entry, if the index held it, has an index entry taken from its
  stat result.
\<close>

definition ix_find :: "string \<Rightarrow> FileEntry list \<Rightarrow> FileEntry option" where
  "ix_find p idx = find (\<lambda>f. fe_path f = p) idx"

definition index_inv ::
  "(string \<Rightarrow> stat_result option) \<Rightarrow> FileEntry list \<Rightarrow> indexer \<Rightarrow> bool" where
  "index_inv stat idx0 s =
     (set (ix_new_files s) \<subseteq> set (ix_index s)
      \<and> (\<forall>p. (\<forall>e \<in> set (ix_new_files s @ ix_updated_files s). fe_path e \<noteq> p) \<longrightarrow>
             ix_find p (ix_index s) = ix_find p idx0)
      \<and> (\<forall>p. (\<exists>e \<in> set (ix_updated_files s). fe_path e = p) \<longrightarrow> ix_find p idx0 \<noteq> None \<longrightarrow>
             (\<exists>e st. ix_find p (ix_index s) = Some e \<and> stat p = Some st \<and> from_stat st e)))"

text \<open>
  A cached file whose time stamp is \<open>2^-53\<close> and which is now stamped \<open>1 + 2^-52\<close>, at
  unchanged size: the exact difference \<open>1 + 2^-53\<close> lies halfway between the doubles
  \<open>1\<close> and \<open>1 + 2^-52\<close> and rounds to \<open>1\<close>. And the scenario above with the index
  loaded from the cache, as \<open>run\<close> leaves it.
\<close>

definition tie_cached_time :: real where
  "tie_cached_time = 1 / 2 ^ 53"

definition tie_current_time :: real where
  "tie_current_time = 1 + 1 / 2 ^ 52"

definition tie_stat :: "string \<Rightarrow> stat_result option" where
  "tie_stat p = Some \<lparr>st_size = 1, st_mtime = tie_current_time\<rparr>"

definition tie_tree :: dir_tree where
  "tie_tree = Dir [''a''] []"

definition tie_indexer :: indexer where
  "tie_indexer =
     (SystemIndexerThread_init [cached_file ''/a'' 1 tie_cached_time])
     \<lparr>ix_db_manager := True, ix_index := [cached_file ''/a'' 1 tie_cached_time]\<rparr>"

definition example_indexer_loaded :: indexer where
  "example_indexer_loaded = example_indexer\<lparr>ix_index := ix_db example_indexer\<rparr>"

text \<open>
  The reads of \<open>should_stop\<close> that the loops of a scan make when nothing stops them, in
  order: \<open>Enter\<close> for the read at the top of an iteration over drives or directories,
  \<open>Visit p\<close> for the read at the top of the iteration over files that guards the visit
  of the file \<open>p\<close>. \<open>visits\<close> gives the files of a list of checks; \<open>full_checks\<close> lists
  the checks of \<open>full_index\<close>, \<open>scan_checks\<close> those of the walk of either duplicate scan.
\<close>

datatype check = Enter | Visit string

fun visits :: "check list \<Rightarrow> string list" where
  "visits [] = []"
| "visits (Enter # cs) = visits cs"
| "visits (Visit p # cs) = p # visits cs"

definition file_checks :: "string \<Rightarrow> string list \<Rightarrow> check list" where
  "file_checks root_dir files = map (\<lambda>filename. Visit (os_path_join root_dir filename)) files"

definition dir_checks :: "(string \<times> string list) list \<Rightarrow> check list" where
  "dir_checks walk = concat (map (\<lambda>(root_dir, files). Enter # file_checks root_dir files) walk)"

definition full_checks :: "(string \<times> dir_tree) list \<Rightarrow> check list" where
  "full_checks drives =
     concat (map (\<lambda>(drive, tree). Enter # dir_checks (os_walk indexer_keeps drive tree)) drives)"

definition scan_checks :: "string \<Rightarrow> dir_tree \<Rightarrow> check list" where
  "scan_checks root_folder tree = dir_checks (os_walk scanner_keeps root_folder tree)"

text \<open>
  The list \<open>files_to_hash\<close> that the deep scan builds when its walk is not stopped.
\<close>

definition deep_candidates :: "(string \<Rightarrow> stat_result option) \<Rightarrow> string \<Rightarrow> dir_tree \<Rightarrow> string list" where
  "deep_candidates stat root_folder tree =
     files_to_hash (sc_size_map
       (deep_dirs None stat (os_walk scanner_keeps root_folder tree)
          (scanner_start ProgressScanningBySize)))"

text \<open>The completion signals among the signals of an indexer, in order.\<close>

fun is_indexing_complete :: "indexer_event \<Rightarrow> bool" where
  "is_indexing_complete (IndexingComplete n) = True"
| "is_indexing_complete e = False"

definition completions :: "indexer \<Rightarrow> indexer_event list" where
  "completions s = filter is_indexing_complete (ix_events s)"

text \<open>
  A part of a scan, from the state \<open>s\<close> to the state \<open>s'\<close>, follows the checks \<open>C\<close> under
  the schedule \<open>Some k\<close>: it hands to \<open>os.stat\<close> the files of the checks that are reached
  with the flag clear; if every check is, it has made exactly these reads; otherwise it
  has read the flag set (and a scanner has returned); and it emits no completion signal.
\<close>

definition ix_follows :: "nat \<Rightarrow> check list \<Rightarrow> indexer \<Rightarrow> indexer \<Rightarrow> bool" where
  "ix_follows k C s s' =
     (ix_stat_calls s' = ix_stat_calls s @ visits (take (k - ix_reads s) C)
      \<and> (ix_reads s + length C \<le> k \<longrightarrow> ix_reads s' = ix_reads s + length C)
      \<and> (k < ix_reads s + length C \<longrightarrow> k < ix_reads s')
      \<and> ix_reads s \<le> ix_reads s'
      \<and> completions s' = completions s)"

definition sc_follows :: "nat \<Rightarrow> check list \<Rightarrow> scanner \<Rightarrow> scanner \<Rightarrow> bool" where
  "sc_follows k C s s' =
     (sc_stat_calls s' = sc_stat_calls s @ visits (take (k - sc_reads s) C)
      \<and> (sc_reads s + length C \<le> k \<longrightarrow> sc_reads s' = sc_reads s + length C \<and> \<not> sc_returned s')
      \<and> (k < sc_reads s + length C \<longrightarrow> sc_returned s')
      \<and> no_complete (sc_events s') = no_complete (sc_events s))"

section \<open>Wasted space\<close>

lemma sorted_last_Max:
  fixes ys :: "int list"
  assumes "sorted ys" and "ys \<noteq> []"
  shows "last ys = Max (set ys)"
proof -
  have "\<forall>y \<in> set ys. y \<le> last ys"
    using assms by (induction ys) (auto split: if_splits)
  moreover have "last ys \<in> set ys"
    using assms(2) by simp
  ultimately show ?thesis
    by (metis List.finite_set Max_eqI)
qed

lemma sum_list_insort:
  fixes xs :: "int list"
  shows "sum_list (insort x xs) = x + sum_list xs"
  by (induction xs) auto

lemma sum_list_sort:
  fixes xs :: "int list"
  shows "sum_list (sort xs) = sum_list xs"
  by (induction xs) (auto simp: sum_list_insort)

lemma sum_drop1_sorted_reverse:
  fixes xs :: "int list"
  assumes "xs \<noteq> []"
  shows "sum_list (drop 1 (sorted_reverse xs)) = sum_list xs - Max (set xs)"
proof -
  have "sort xs \<noteq> []"
    using assms by (metis length_sort length_0_conv)
  then obtain zs z where zs: "sort xs = zs @ [z]"
    by (metis rev_exhaust)
  have "z = last (sort xs)"
    by (simp add: zs)
  also have "\<dots> = Max (set xs)"
    using sorted_last_Max [of "sort xs"] \<open>sort xs \<noteq> []\<close> by simp
  finally have z: "z = Max (set xs)" .
  have "sum_list xs = sum_list (sort xs)"
    by (simp add: sum_list_sort)
  also have "\<dots> = sum_list zs + z"
    by (simp add: zs)
  finally have "sum_list zs = sum_list xs - Max (set xs)"
    using z by simp
  moreover have "drop 1 (sorted_reverse xs) = rev zs"
    by (simp add: sorted_reverse_def zs)
  ultimately show ?thesis
    by (simp add: sum_list_rev)
qed

text \<open>
  Claim C5. For a group with at least two members, \<open>wasted_space\<close> is the sum of the
  member sizes minus the largest member size (the sum of all sizes except one copy of
  the largest); for a group with at most one member it is 0.
\<close>

theorem wasted_space_total_minus_max:
  "(2 \<le> length (dg_files g) \<longrightarrow>
      wasted_space g = total_size g - Max (set (map df_size (dg_files g))))
   \<and> (length (dg_files g) \<le> 1 \<longrightarrow> wasted_space g = 0)"
proof -
  have "wasted_space g = total_size g - Max (set (map df_size (dg_files g)))"
    if "2 \<le> length (dg_files g)"
  proof -
    from that have "map df_size (dg_files g) \<noteq> []" by auto
    from sum_drop1_sorted_reverse [OF this] that show ?thesis
      by (simp add: wasted_space_def total_size_def)
  qed
  then show ?thesis by (simp add: wasted_space_def)
qed

theorem wasted_space_total_minus_max_witness:
  "2 \<le> length (dg_files group_100_100_300)
   \<and> wasted_space group_100_100_300 = 200
   \<and> length (dg_files \<lparr>dg_key = ''k'', dg_files = [sized_file ''a'' 7]\<rparr>) \<le> 1
   \<and> wasted_space \<lparr>dg_key = ''k'', dg_files = [sized_file ''a'' 7]\<rparr> = 0"
  using wasted_space_total_minus_max [of group_100_100_300]
    wasted_space_total_minus_max [of "\<lparr>dg_key = ''k'', dg_files = [sized_file ''a'' 7]\<rparr>"]
  by (simp add: group_100_100_300_def sized_file_def total_size_def)


section \<open>Search\<close>

text \<open>
  Claim C1. The total that \<open>search_complete\<close> carries is computed from the query alone.
  On an index holding the single file \<open>/home/a.txt\<close>, with query \<open>a\<close> and folder filter
  \<open>docs\<close>, no record satisfies the search predicate and no batch is emitted, yet the
  total emitted is 1.
\<close>

theorem search_total_ignores_folder_filter:
  "ss_events (search_run None (FileSearchThread_init [entry_a_txt] ''a'' ''docs''))
     = [SearchComplete 1]
   \<and> length (filter (search_predicate ''a'' (Some ''docs'')) [entry_a_txt]) = 0"
  by code_simp

section \<open>Deletion\<close>

lemma should_stop_None [simp]: "should_stop None t = False"
  by (simp add: should_stop_def)

lemma delete_step_deletable:
  assumes "deletable (dl_fs s) (df_path file)"
  shows "delete_step n i file s =
     s\<lparr>dl_fs := (dl_fs s)\<lparr>fs_exists := (fs_exists (dl_fs s))(df_path file := False)\<rparr>,
       dl_deleted_count := dl_deleted_count s + 1,
       dl_events := dl_events s @ [DelProgress (i + 1) n]\<rparr>"
  using assms by (simp add: delete_step_def deletable_def)

lemma delete_step_not_deletable:
  assumes "\<not> deletable (dl_fs s) (df_path file)"
  shows "dl_fs (delete_step n i file s) = dl_fs s"
    and "dl_deleted_count (delete_step n i file s) = dl_deleted_count s"
    and "dl_failed_count (delete_step n i file s) = dl_failed_count s + 1"
  using assms by (auto simp: delete_step_def deletable_def)

lemma delete_loop_None:
  "dl_deleted_count (delete_loop None n i files s) =
     dl_deleted_count s + card {p \<in> df_path ` set files. deletable (dl_fs s) p}
   \<and> dl_deleted_count (delete_loop None n i files s) + dl_failed_count (delete_loop None n i files s) =
     dl_deleted_count s + dl_failed_count s + length files
   \<and> fs_exists (dl_fs (delete_loop None n i files s)) =
       (\<lambda>p. fs_exists (dl_fs s) p \<and> \<not> (p \<in> df_path ` set files \<and> deletable (dl_fs s) p))
   \<and> fs_writable (dl_fs (delete_loop None n i files s)) = fs_writable (dl_fs s)
   \<and> fs_remove_ok (dl_fs (delete_loop None n i files s)) = fs_remove_ok (dl_fs s)"
proof (induction files arbitrary: i s)
  case Nil
  show ?case by simp
next
  case (Cons f rest)
  define p where "p = df_path f"
  define s1 where "s1 = delete_step n i f (s\<lparr>dl_reads := dl_reads s + 1\<rparr>)"
  have loop: "delete_loop None n i (f # rest) s = delete_loop None n (i + 1) rest s1"
    by (simp add: s1_def)
  note IH = Cons.IH [of "i + 1" s1]
  note ih1 = IH [THEN conjunct1]
  note ih2 = IH [THEN conjunct2, THEN conjunct1]
  note ih3 = IH [THEN conjunct2, THEN conjunct2, THEN conjunct1]
  note ih4 = IH [THEN conjunct2, THEN conjunct2, THEN conjunct2, THEN conjunct1]
  note ih5 = IH [THEN conjunct2, THEN conjunct2, THEN conjunct2, THEN conjunct2]
  show ?case
  proof (cases "deletable (dl_fs s) p")
    case True
    then have d0: "deletable (dl_fs (s\<lparr>dl_reads := dl_reads s + 1\<rparr>)) (df_path f)"
      by (simp add: p_def)
    have fs1: "dl_fs s1 = (dl_fs s)\<lparr>fs_exists := (fs_exists (dl_fs s))(p := False)\<rparr>"
      and c1: "dl_deleted_count s1 = dl_deleted_count s + 1"
      and f1: "dl_failed_count s1 = dl_failed_count s"
      unfolding s1_def p_def delete_step_deletable [OF d0] by simp_all
    have del1: "deletable (dl_fs s1) q \<longleftrightarrow> deletable (dl_fs s) q \<and> q \<noteq> p" for q
      by (auto simp: fs1 deletable_def)
    have sets: "{q \<in> df_path ` set (f # rest). deletable (dl_fs s) q} =
        insert p {q \<in> df_path ` set rest. deletable (dl_fs s1) q}"
      using True by (auto simp: del1 p_def)
    have notin: "p \<notin> {q \<in> df_path ` set rest. deletable (dl_fs s1) q}"
      by (simp add: del1)
    have card: "card {q \<in> df_path ` set (f # rest). deletable (dl_fs s) q} =
        Suc (card {q \<in> df_path ` set rest. deletable (dl_fs s1) q})"
      unfolding sets using notin by simp
    have ex: "(\<lambda>q. fs_exists (dl_fs s1) q \<and> \<not> (q \<in> df_path ` set rest \<and> deletable (dl_fs s1) q)) =
       (\<lambda>q. fs_exists (dl_fs s) q \<and> \<not> (q \<in> df_path ` set (f # rest) \<and> deletable (dl_fs s) q))"
      using True by (auto simp: fun_eq_iff del1 fs1 deletable_def p_def)
    have wr: "fs_writable (dl_fs s1) = fs_writable (dl_fs s)"
      "fs_remove_ok (dl_fs s1) = fs_remove_ok (dl_fs s)"
      by (simp_all add: fs1)
    show ?thesis
      unfolding loop
    proof (intro conjI)
      show "dl_deleted_count (delete_loop None n (i + 1) rest s1) =
        dl_deleted_count s + card {p \<in> df_path ` set (f # rest). deletable (dl_fs s) p}"
        using ih1 card c1 by simp
      show "dl_deleted_count (delete_loop None n (i + 1) rest s1) +
          dl_failed_count (delete_loop None n (i + 1) rest s1) =
        dl_deleted_count s + dl_failed_count s + length (f # rest)"
        using ih2 c1 f1 by simp
      show "fs_exists (dl_fs (delete_loop None n (i + 1) rest s1)) =
        (\<lambda>p. fs_exists (dl_fs s) p \<and> \<not> (p \<in> df_path ` set (f # rest) \<and> deletable (dl_fs s) p))"
        by (rule trans [OF ih3 ex])
      show "fs_writable (dl_fs (delete_loop None n (i + 1) rest s1)) = fs_writable (dl_fs s)"
        by (rule trans [OF ih4 wr(1)])
      show "fs_remove_ok (dl_fs (delete_loop None n (i + 1) rest s1)) = fs_remove_ok (dl_fs s)"
        by (rule trans [OF ih5 wr(2)])
    qed
  next
    case False
    then have d0: "\<not> deletable (dl_fs (s\<lparr>dl_reads := dl_reads s + 1\<rparr>)) (df_path f)"
      by (simp add: p_def)
    have fs1: "dl_fs s1 = dl_fs s"
      and c1: "dl_deleted_count s1 = dl_deleted_count s"
      and f1: "dl_failed_count s1 = dl_failed_count s + 1"
      unfolding s1_def using delete_step_not_deletable [OF d0, of n i] by simp_all
    have sets: "{q \<in> df_path ` set (f # rest). deletable (dl_fs s) q} =
        {q \<in> df_path ` set rest. deletable (dl_fs s) q}"
      using False by (auto simp: p_def)
    have ex: "(\<lambda>q. fs_exists (dl_fs s) q \<and> \<not> (q \<in> df_path ` set rest \<and> deletable (dl_fs s) q)) =
       (\<lambda>q. fs_exists (dl_fs s) q \<and> \<not> (q \<in> df_path ` set (f # rest) \<and> deletable (dl_fs s) q))"
      using False by (auto simp: fun_eq_iff p_def)
    show ?thesis
      unfolding loop
    proof (intro conjI)
      show "dl_deleted_count (delete_loop None n (i + 1) rest s1) =
        dl_deleted_count s + card {p \<in> df_path ` set (f # rest). deletable (dl_fs s) p}"
        using ih1 c1 by (simp only: sets fs1)
      show "dl_deleted_count (delete_loop None n (i + 1) rest s1) +
          dl_failed_count (delete_loop None n (i + 1) rest s1) =
        dl_deleted_count s + dl_failed_count s + length (f # rest)"
        using ih2 c1 f1 by simp
      show "fs_exists (dl_fs (delete_loop None n (i + 1) rest s1)) =
        (\<lambda>p. fs_exists (dl_fs s) p \<and> \<not> (p \<in> df_path ` set (f # rest) \<and> deletable (dl_fs s) p))"
        using ih3 ex by (simp only: fs1)
      show "fs_writable (dl_fs (delete_loop None n (i + 1) rest s1)) = fs_writable (dl_fs s)"
        using ih4 by (simp only: fs1)
      show "fs_remove_ok (dl_fs (delete_loop None n (i + 1) rest s1)) = fs_remove_ok (dl_fs s)"
        using ih5 by (simp only: fs1)
    qed
  qed
qed


text \<open>
  Claim C7. A deletion batch that is not cancelled removes exactly the listed paths
  that exist, are writable and whose remove call succeeds; every other attempt counts
  as failed, all files are attempted, and the last event reports the two counters.
\<close>

theorem deletion_run_report:
  "dl_deleted_count (deletion_run None fs files) =
      card {p \<in> df_path ` set files. deletable fs p}
   \<and> dl_deleted_count (deletion_run None fs files) + dl_failed_count (deletion_run None fs files) =
      length files
   \<and> (\<forall>p. fs_exists (dl_fs (deletion_run None fs files)) p =
          (fs_exists fs p \<and> \<not> (p \<in> df_path ` set files \<and> deletable fs p)))
   \<and> last (dl_events (deletion_run None fs files)) =
      DeletionComplete (dl_deleted_count (deletion_run None fs files))
        (dl_failed_count (deletion_run None fs files))"
proof -
  define s0 where
    "s0 = \<lparr>dl_fs = fs, dl_deleted_count = 0, dl_failed_count = 0, dl_events = [], dl_reads = 0\<rparr>"
  define s where "s = delete_loop None (length files) 0 files s0"
  have run: "deletion_run None fs files =
      s\<lparr>dl_events := dl_events s @ [DeletionComplete (dl_deleted_count s) (dl_failed_count s)],
        dl_reads := dl_reads s + 1\<rparr>"
    by (simp add: deletion_run_def s_def s0_def Let_def)
  have s0: "dl_fs s0 = fs" "dl_deleted_count s0 = 0" "dl_failed_count s0 = 0"
    by (simp_all add: s0_def)
  note L = delete_loop_None [of "length files" 0 files s0, folded s_def, unfolded s0]
  show ?thesis
    unfolding run using L by (simp add: fun_eq_iff)
qed

theorem deletion_run_report_witness:
  "dl_deleted_count (deletion_run None only_tmp_b [sized_file ''/tmp/a'' 1, sized_file ''/tmp/b'' 1])
     = card {p \<in> df_path ` set [sized_file ''/tmp/a'' 1, sized_file ''/tmp/b'' 1].
               deletable only_tmp_b p}
   \<and> dl_events (deletion_run None only_tmp_b [sized_file ''/tmp/a'' 1, sized_file ''/tmp/b'' 1])
     = [DelProgress 2 2, DeletionComplete 1 1]
   \<and> \<not> fs_exists (dl_fs (deletion_run None only_tmp_b
          [sized_file ''/tmp/a'' 1, sized_file ''/tmp/b'' 1])) ''/tmp/b''"
proof -
  have "dl_events (deletion_run None only_tmp_b [sized_file ''/tmp/a'' 1, sized_file ''/tmp/b'' 1])
     = [DelProgress 2 2, DeletionComplete 1 1]"
    by code_simp
  moreover have "\<not> fs_exists (dl_fs (deletion_run None only_tmp_b
          [sized_file ''/tmp/a'' 1, sized_file ''/tmp/b'' 1])) ''/tmp/b''"
    by code_simp
  ultimately show ?thesis
    using deletion_run_report [of only_tmp_b "[sized_file ''/tmp/a'' 1, sized_file ''/tmp/b'' 1]"]
    by blast
qed

text \<open>
  Claim C8. An attempt on a path that does not exist leaves the loop iteration through
  \<open>continue\<close>, before the progress signal: a batch of one missing file emits the final
  report and no progress event at all.
\<close>

theorem deletion_no_progress_for_missing_file:
  "dl_events (deletion_run None only_tmp_b [sized_file ''/tmp/a'' 1]) = [DeletionComplete 0 1]"
  by code_simp

section \<open>Choice between full and incremental scan\<close>

lemma timer_simps [simp]:
  "ix_timer (read_flag s) = ix_timer s"
  "ix_timer (emit e s) = ix_timer s"
  by (simp_all add: read_flag_def emit_def)

lemma full_visit_timer [simp]: "ix_timer (full_visit stat r f s) = ix_timer s"
  by (simp add: full_visit_def Let_def split: option.splits)

lemma full_files_timer [simp]: "ix_timer (full_files k stat r fs s) = ix_timer s"
  by (induction fs arbitrary: s) simp_all

lemma full_dirs_timer [simp]: "ix_timer (full_dirs k stat ds s) = ix_timer s"
  by (induction k stat ds s rule: full_dirs.induct) simp_all

lemma full_drives_timer [simp]: "ix_timer (full_drives k stat ds s) = ix_timer s"
  by (induction k stat ds s rule: full_drives.induct) simp_all

lemma full_index_timer [simp]: "ix_timer (full_index k stat drives s) = ix_timer s"
  by (simp add: full_index_def Let_def)

lemma length_cache_of_1000: "length cache_of_1000 = 1000"
  by (simp add: cache_of_1000_def)

text \<open>
  The \<open>finally\<close> clause of \<open>run\<close> closes the connection on every path, and
  \<open>incremental_update\<close> returns at its first test when the connection is closed: a call
  of \<open>incremental_update\<close> after \<open>run\<close> has returned changes nothing.
\<close>

lemma run_closes_connection: "\<not> ix_db_manager (run k stat drives force_full_index s)"
  by (simp add: run_def Let_def)

lemma incremental_update_after_run:
  "incremental_update k' stat' drives' (run k stat drives force_full_index s)
     = run k stat drives force_full_index s"
  by (simp add: incremental_update_def run_closes_connection)

lemma full_index_reads: "ix_reads (full_index k stat drives s) > 0"
  by (simp add: full_index_def Let_def read_flag_def emit_def)

lemma run_full_scan_small_cache:
  assumes "length db \<le> 1000"
  shows "ix_index (run None example_stat [(''/'', example_tree)] False (SystemIndexerThread_init db))
       = [make_entry ''a'' ''/a'' \<lparr>st_size = 2, st_mtime = 5\<rparr>,
          make_entry ''b'' ''/x/b'' \<lparr>st_size = 4, st_mtime = 5\<rparr>,
          make_entry ''c'' ''/x/c'' \<lparr>st_size = 4, st_mtime = 5\<rparr>]
   \<and> ix_events (run None example_stat [(''/'', example_tree)] False (SystemIndexerThread_init db))
       = [ProgressLoadingCache, ProgressIndexing ''/'', IndexingComplete 3]
   \<and> ix_stat_calls (run None example_stat [(''/'', example_tree)] False (SystemIndexerThread_init db))
       = [''/a'', ''/x/b'', ''/x/c'', ''/x/gone'']"
  using assms
  by (simp add: run_def Let_def load_file_index_def full_index_def emit_def read_flag_def
      SystemIndexerThread_init_def example_tree_def example_stat_def os_walk.simps
      full_visit_def os_path_join_def indexer_keeps_def startswith_dot_def)

text \<open>
  Claim C4, as the specification states it, fails at a cache of exactly 1000 rows: the
  test is \<open>len(cached_files) > 1000\<close>, so \<open>run\<close> does not publish the cache; it walks
  the drive and completes a full index of its 3 readable files. It also fails at a
  cache of 1001 rows: the cache is published and no file is visited, but the call of
  \<open>incremental_update\<close> that the timer makes afterwards returns without checking
  anything.
\<close>

theorem run_full_scan_at_1000_entries:
  "length cache_of_1000 = 1000
   \<and> ix_index (run None example_stat [(''/'', example_tree)] False
        (SystemIndexerThread_init cache_of_1000))
       = [make_entry ''a'' ''/a'' \<lparr>st_size = 2, st_mtime = 5\<rparr>,
          make_entry ''b'' ''/x/b'' \<lparr>st_size = 4, st_mtime = 5\<rparr>,
          make_entry ''c'' ''/x/c'' \<lparr>st_size = 4, st_mtime = 5\<rparr>]
   \<and> ix_events (run None example_stat [(''/'', example_tree)] False
        (SystemIndexerThread_init cache_of_1000))
       = [ProgressLoadingCache, ProgressIndexing ''/'', IndexingComplete 3]
   \<and> ix_stat_calls (run None example_stat [(''/'', example_tree)] False
        (SystemIndexerThread_init cache_of_1000))
       = [''/a'', ''/x/b'', ''/x/c'', ''/x/gone'']
   \<and> length (cache_of_1000 @ [cached_entry 1000]) = 1001
   \<and> incremental_update None example_stat [(''/'', example_tree)]
        (run None example_stat [(''/'', example_tree)] False
           (SystemIndexerThread_init (cache_of_1000 @ [cached_entry 1000])))
       = run None example_stat [(''/'', example_tree)] False
           (SystemIndexerThread_init (cache_of_1000 @ [cached_entry 1000]))
   \<and> ix_stat_calls (run None example_stat [(''/'', example_tree)] False
        (SystemIndexerThread_init (cache_of_1000 @ [cached_entry 1000]))) = []"
proof -
  have l: "length cache_of_1000 \<le> 1000" by (simp add: length_cache_of_1000)
  have g: "length (cache_of_1000 @ [cached_entry 1000]) > 1000" by (simp add: length_cache_of_1000)
  have "ix_stat_calls (run None example_stat [(''/'', example_tree)] False
        (SystemIndexerThread_init (cache_of_1000 @ [cached_entry 1000]))) = []"
    using g by (simp add: run_def Let_def load_file_index_def emit_def SystemIndexerThread_init_def)
  then show ?thesis
    using run_full_scan_small_cache [OF l] incremental_update_after_run
    by (simp add: length_cache_of_1000)
qed

text \<open>
  Claim C4, amended. Without a forced full index, \<open>run\<close> performs the full index exactly
  when the cache holds at most 1000 rows; with more than 1000 rows \<open>run\<close> publishes the
  cache as the index and reports its length at once: before it returns it visits no
  file, never reads the stop flag and leaves the database as it was. What the call of
  \<open>incremental_update\<close> made by the timer does afterwards is not part of this statement.
\<close>

theorem run_threshold:
  "(length db \<le> 1000 \<longrightarrow>
      run k stat drives False (SystemIndexerThread_init db) =
        (full_index k stat drives
           (emit ProgressLoadingCache ((SystemIndexerThread_init db)\<lparr>ix_db_manager := True\<rparr>)))
        \<lparr>ix_db_manager := False\<rparr>
      \<and> ix_reads (run k stat drives False (SystemIndexerThread_init db)) > 0)
   \<and> (length db > 1000 \<longrightarrow>
      ix_index (run k stat drives False (SystemIndexerThread_init db)) = db
      \<and> ix_events (run k stat drives False (SystemIndexerThread_init db))
          = [ProgressLoadingCache, ProgressLoaded (length db), FilesIndexed (length db)]
      \<and> ix_stat_calls (run k stat drives False (SystemIndexerThread_init db)) = []
      \<and> ix_reads (run k stat drives False (SystemIndexerThread_init db)) = 0
      \<and> ix_db (run k stat drives False (SystemIndexerThread_init db)) = db)"
proof (intro conjI impI)
  assume le: "length db \<le> 1000"
  then show eq: "run k stat drives False (SystemIndexerThread_init db) =
        (full_index k stat drives
           (emit ProgressLoadingCache ((SystemIndexerThread_init db)\<lparr>ix_db_manager := True\<rparr>)))
        \<lparr>ix_db_manager := False\<rparr>"
    by (simp add: run_def Let_def load_file_index_def emit_def SystemIndexerThread_init_def)
  show "ix_reads (run k stat drives False (SystemIndexerThread_init db)) > 0"
    unfolding eq using full_index_reads by simp
next
  assume gt: "length db > 1000"
  then show "ix_index (run k stat drives False (SystemIndexerThread_init db)) = db"
    and "ix_events (run k stat drives False (SystemIndexerThread_init db))
          = [ProgressLoadingCache, ProgressLoaded (length db), FilesIndexed (length db)]"
    and "ix_stat_calls (run k stat drives False (SystemIndexerThread_init db)) = []"
    and "ix_reads (run k stat drives False (SystemIndexerThread_init db)) = 0"
    and "ix_db (run k stat drives False (SystemIndexerThread_init db)) = db"
    by (simp_all add: run_def Let_def load_file_index_def emit_def SystemIndexerThread_init_def)
qed

theorem run_threshold_witness:
  "length (cache_of_1000 @ [cached_entry 1000]) > 1000
   \<and> ix_index (run None example_stat [(''/'', example_tree)] False
        (SystemIndexerThread_init (cache_of_1000 @ [cached_entry 1000])))
       = cache_of_1000 @ [cached_entry 1000]
   \<and> ix_reads (run None example_stat [(''/'', example_tree)] False
        (SystemIndexerThread_init (cache_of_1000 @ [cached_entry 1000]))) = 0
   \<and> length cache_of_1000 \<le> 1000
   \<and> ix_reads (run None example_stat [(''/'', example_tree)] False
        (SystemIndexerThread_init cache_of_1000)) > 0"
proof -
  have g: "length (cache_of_1000 @ [cached_entry 1000]) > 1000"
    by (simp add: length_cache_of_1000)
  have l: "length cache_of_1000 \<le> 1000"
    by (simp add: length_cache_of_1000)
  note A = run_threshold [of "cache_of_1000 @ [cached_entry 1000]" None example_stat
      "[(''/'', example_tree)]"]
  note B = run_threshold [of "cache_of_1000" None example_stat "[(''/'', example_tree)]"]
  from A g B l show ?thesis by blast
qed

section \<open>Incremental update\<close>

lemma read_flag_fields [simp]:
  "ix_db (read_flag s) = ix_db s"
  "ix_new_files (read_flag s) = ix_new_files s"
  "ix_updated_files (read_flag s) = ix_updated_files s"
  "ix_existing_paths (read_flag s) = ix_existing_paths s"
  "ix_index (read_flag s) = ix_index s"
  "ix_events (read_flag s) = ix_events s"
  "ix_stat_calls (read_flag s) = ix_stat_calls s"
  "ix_reads (read_flag s) = ix_reads s + 1"
  by (simp_all add: read_flag_def)

lemma count_checked_fields [simp]:
  "ix_db (count_checked s) = ix_db s"
  "ix_new_files (count_checked s) = ix_new_files s"
  "ix_updated_files (count_checked s) = ix_updated_files s"
  "ix_existing_paths (count_checked s) = ix_existing_paths s"
  "ix_reads (count_checked s) = ix_reads s"
  "ix_stat_calls (count_checked s) = ix_stat_calls s"
  by (simp_all add: count_checked_def emit_def Let_def)

lemma make_entry_fields [simp]:
  "fe_path (make_entry f p st) = p"
  "fe_size (make_entry f p st) = st_size st"
  "fe_modified (make_entry f p st) = st_mtime st"
  by (simp_all add: make_entry_def)

lemma get_file_info_None: "get_file_info db p = None \<longleftrightarrow> p \<notin> get_indexed_paths db"
  by (induction db) (auto simp: get_file_info_def get_indexed_paths_def split: option.splits)

lemma walk_inv_read_flag [simp]: "walk_inv stat db0 (read_flag s) = walk_inv stat db0 s"
  by (simp add: walk_inv_def)

lemma walk_inv_visit:
  assumes "walk_inv stat db0 s"
  shows "walk_inv stat db0 (incremental_visit stat (get_indexed_paths db0) r f s)"
proof -
  define p where "p = os_path_join r f"
  have db: "ix_db s = db0" using assms by (simp add: walk_inv_def)
  show ?thesis
  proof (cases "stat p")
    case None
    then have "incremental_visit stat (get_indexed_paths db0) r f s =
        s\<lparr>ix_existing_paths := insert p (ix_existing_paths s),
          ix_stat_calls := ix_stat_calls s @ [p]\<rparr>"
      by (simp add: incremental_visit_def p_def Let_def)
    then show ?thesis
      using assms None by (auto simp: walk_inv_def)
  next
    case (Some st)
    show ?thesis
    proof (cases "p \<in> get_indexed_paths db0")
      case False
      then have "incremental_visit stat (get_indexed_paths db0) r f s =
        count_checked (s\<lparr>ix_existing_paths := insert p (ix_existing_paths s),
          ix_stat_calls := ix_stat_calls s @ [p],
          ix_new_files := ix_new_files s @ [make_entry f p st],
          ix_index := ix_index s @ [make_entry f p st]\<rparr>)"
        using Some by (simp add: incremental_visit_def p_def Let_def)
      moreover have "get_file_info db0 p = None"
        using False by (simp add: get_file_info_None)
      ultimately show ?thesis
        using assms Some False by (auto simp: walk_inv_def from_stat_def)
    next
      case True
      show ?thesis
      proof (cases "get_file_info db0 p")
        case None
        then have "incremental_visit stat (get_indexed_paths db0) r f s =
          count_checked (s\<lparr>ix_existing_paths := insert p (ix_existing_paths s),
            ix_stat_calls := ix_stat_calls s @ [p]\<rparr>)"
          using Some True db by (simp add: incremental_visit_def p_def Let_def)
        then show ?thesis
          using assms Some True None by (auto simp: walk_inv_def)
      next
        case info: (Some info)
        show ?thesis
        proof (cases "st_size st \<noteq> ci_size info \<or> \<bar>float_sub (st_mtime st) (ci_modified info)\<bar> > 1")
          case changed: True
          then have "incremental_visit stat (get_indexed_paths db0) r f s =
            count_checked (s\<lparr>ix_existing_paths := insert p (ix_existing_paths s),
              ix_stat_calls := ix_stat_calls s @ [p],
              ix_updated_files := ix_updated_files s @ [make_entry f p st],
              ix_index := replace_first p (make_entry f p st) (ix_index s)\<rparr>)"
            using Some True db info by (simp add: incremental_visit_def p_def Let_def)
          then show ?thesis
            using assms Some True info changed by (auto simp: walk_inv_def from_stat_def)
        next
          case unchanged: False
          then have "incremental_visit stat (get_indexed_paths db0) r f s =
            count_checked (s\<lparr>ix_existing_paths := insert p (ix_existing_paths s),
              ix_stat_calls := ix_stat_calls s @ [p]\<rparr>)"
            using Some True db info by (simp add: incremental_visit_def p_def Let_def)
          then show ?thesis
            using assms Some True info unchanged by (auto simp: walk_inv_def)
        qed
      qed
    qed
  qed
qed

lemma walk_inv_files:
  "walk_inv stat db0 s \<Longrightarrow> walk_inv stat db0 (incremental_files k stat (get_indexed_paths db0) r fs s)"
  by (induction fs arbitrary: s) (simp_all add: walk_inv_visit)

lemma walk_inv_dirs:
  "walk_inv stat db0 s \<Longrightarrow> walk_inv stat db0 (incremental_dirs k stat (get_indexed_paths db0) ds s)"
  by (induction k stat "get_indexed_paths db0" ds s rule: incremental_dirs.induct)
     (simp_all add: walk_inv_files)

lemma walk_inv_drives:
  "walk_inv stat db0 s \<Longrightarrow> walk_inv stat db0 (incremental_drives k stat (get_indexed_paths db0) ds s)"
  by (induction k stat "get_indexed_paths db0" ds s rule: incremental_drives.induct)
     (simp_all add: walk_inv_dirs)

lemma walk_inv_walk: "walk_inv stat (ix_db s) (incremental_walk k stat drives s)"
  unfolding incremental_walk_def Let_def
  by (simp add: emit_def, rule walk_inv_drives) (simp add: walk_inv_def)

lemma from_stat_info: "from_stat st e \<Longrightarrow> info_of e = info_of_stat st"
  by (simp add: from_stat_def info_of_def info_of_stat_def)

lemma get_file_info_append:
  "get_file_info (xs @ ys) p =
     (case get_file_info xs p of None \<Rightarrow> get_file_info ys p | Some i \<Rightarrow> Some i)"
  by (induction xs) (auto simp: get_file_info_def split: option.splits)

lemma get_file_info_filter_other:
  "get_file_info (filter (\<lambda>r. fe_path r \<noteq> q) db) p =
     (if p = q then None else get_file_info db p)"
  by (induction db) (auto simp: get_file_info_def split: option.splits)

lemma get_file_info_insert_or_replace:
  "get_file_info (insert_or_replace db f) p =
     (if p = fe_path f then Some (info_of f) else get_file_info db p)"
  by (auto simp: insert_or_replace_def get_file_info_append get_file_info_filter_other
      split: option.splits)
     (simp_all add: get_file_info_def info_of_def)

lemma save_file_index_snoc:
  "save_file_index db (fs @ [f]) = insert_or_replace (save_file_index db fs) f"
  by (simp add: save_file_index_def)

lemma save_file_index_Nil [simp]: "save_file_index db [] = db"
  by (simp add: save_file_index_def)

lemma get_file_info_save_other:
  "\<forall>e \<in> set fs. fe_path e \<noteq> p \<Longrightarrow> get_file_info (save_file_index db fs) p = get_file_info db p"
  by (induction fs rule: rev_induct)
     (auto simp: save_file_index_snoc get_file_info_insert_or_replace)

lemma get_file_info_save_same:
  assumes "\<exists>e \<in> set fs. fe_path e = p"
    and "\<forall>e \<in> set fs. fe_path e = p \<longrightarrow> info_of e = i"
  shows "get_file_info (save_file_index db fs) p = Some i"
  using assms
proof (induction fs rule: rev_induct)
  case Nil
  then show ?case by simp
next
  case (snoc f fs)
  show ?case
  proof (cases "fe_path f = p")
    case True
    then show ?thesis
      using snoc.prems by (simp add: save_file_index_snoc get_file_info_insert_or_replace)
  next
    case False
    then have "\<exists>e \<in> set fs. fe_path e = p" using snoc.prems(1) by auto
    moreover have "\<forall>e \<in> set fs. fe_path e = p \<longrightarrow> info_of e = i" using snoc.prems(2) by auto
    ultimately have "get_file_info (save_file_index db fs) p = Some i" by (rule snoc.IH)
    then show ?thesis
      using False by (auto simp: save_file_index_snoc get_file_info_insert_or_replace)
  qed
qed

lemma get_file_info_remove_deleted:
  "get_file_info (remove_deleted_files db ex) p = (if p \<in> ex then get_file_info db p else None)"
proof -
  have "filter (\<lambda>r. fe_path r \<notin> fe_path ` set db - ex) db = filter (\<lambda>r. fe_path r \<in> ex) db"
    by (rule filter_cong) auto
  moreover have "get_file_info (filter (\<lambda>r. fe_path r \<in> ex) db) p =
      (if p \<in> ex then get_file_info db p else None)"
    by (induction db) (auto simp: get_file_info_def split: option.splits)
  ultimately show ?thesis
    by (simp add: remove_deleted_files_def Let_def)
qed

lemma emit_fields [simp]:
  "ix_db (emit e s) = ix_db s"
  "ix_new_files (emit e s) = ix_new_files s"
  "ix_updated_files (emit e s) = ix_updated_files s"
  "ix_existing_paths (emit e s) = ix_existing_paths s"
  "ix_reads (emit e s) = ix_reads s"
  "ix_stat_calls (emit e s) = ix_stat_calls s"
  "ix_index (emit e s) = ix_index s"
  "ix_events (emit e s) = ix_events s @ [e]"
  by (simp_all add: emit_def)

lemma incremental_finish_fields:
  "ix_db (incremental_finish k w) =
     remove_deleted_files
       (save_file_index (save_file_index (ix_db w) (ix_new_files w)) (ix_updated_files w))
       (ix_existing_paths w)"
  "ix_new_files (incremental_finish k w) = ix_new_files w"
  "ix_updated_files (incremental_finish k w) = ix_updated_files w"
  "ix_existing_paths (incremental_finish k w) = ix_existing_paths w"
  by (simp_all add: incremental_finish_def Let_def)

lemma incremental_update_inv:
  assumes "ix_db_manager s"
  shows "\<exists>w. walk_inv stat (ix_db s) w
     \<and> ix_new_files (incremental_update k stat drives s) = ix_new_files w
     \<and> ix_updated_files (incremental_update k stat drives s) = ix_updated_files w
     \<and> ix_existing_paths (incremental_update k stat drives s) = ix_existing_paths w
     \<and> ix_db (incremental_update k stat drives s) =
         remove_deleted_files
           (save_file_index (save_file_index (ix_db s) (ix_new_files w)) (ix_updated_files w))
           (ix_existing_paths w)"
proof -
  let ?w = "incremental_walk k stat drives s"
  have inv: "walk_inv stat (ix_db s) ?w" by (rule walk_inv_walk)
  then have "ix_db ?w = ix_db s" by (simp add: walk_inv_def)
  then show ?thesis
    using assms inv by (intro exI [of _ ?w]) (simp add: incremental_update_def incremental_finish_fields)
qed

lemma ix_find_append:
  "ix_find p (idx @ [e]) =
     (case ix_find p idx of Some x \<Rightarrow> Some x | None \<Rightarrow> if fe_path e = p then Some e else None)"
  by (induction idx) (auto simp: ix_find_def)

lemma ix_find_replace_first:
  "fe_path e = q \<Longrightarrow>
   ix_find p (replace_first q e idx) =
     (if p = q then (case ix_find q idx of None \<Rightarrow> None | Some _ \<Rightarrow> Some e) else ix_find p idx)"
  by (induction idx) (auto simp: ix_find_def)

lemma set_replace_first_other:
  "x \<in> set idx \<Longrightarrow> fe_path x \<noteq> q \<Longrightarrow> x \<in> set (replace_first q e idx)"
  by (induction idx) auto

lemma count_checked_index [simp]: "ix_index (count_checked s) = ix_index s"
  by (simp add: count_checked_def emit_def Let_def)

lemma index_inv_read_flag [simp]: "index_inv stat idx0 (read_flag s) = index_inv stat idx0 s"
  by (simp add: index_inv_def)

lemma index_inv_visit:
  assumes w: "walk_inv stat db0 s" and j: "index_inv stat idx0 s"
  shows "index_inv stat idx0 (incremental_visit stat (get_indexed_paths db0) r f s)"
proof -
  define p where "p = os_path_join r f"
  have db: "ix_db s = db0" using w by (simp add: walk_inv_def)
  have J1: "set (ix_new_files s) \<subseteq> set (ix_index s)"
    and J2: "\<And>q. (\<forall>e \<in> set (ix_new_files s @ ix_updated_files s). fe_path e \<noteq> q) \<Longrightarrow>
             ix_find q (ix_index s) = ix_find q idx0"
    and J3: "\<And>q. (\<exists>e \<in> set (ix_updated_files s). fe_path e = q) \<Longrightarrow> ix_find q idx0 \<noteq> None \<Longrightarrow>
             (\<exists>e st. ix_find q (ix_index s) = Some e \<and> stat q = Some st \<and> from_stat st e)"
    using j unfolding index_inv_def by blast+
  have new_out: "\<And>e. e \<in> set (ix_new_files s) \<Longrightarrow> fe_path e \<notin> get_indexed_paths db0"
    using w by (simp add: walk_inv_def)
  have upd_in: "\<And>e. e \<in> set (ix_updated_files s) \<Longrightarrow> fe_path e \<in> get_indexed_paths db0"
  proof -
    fix e assume "e \<in> set (ix_updated_files s)"
    then obtain info where "get_file_info db0 (fe_path e) = Some info"
      using w unfolding walk_inv_def by blast
    then show "fe_path e \<in> get_indexed_paths db0"
      using get_file_info_None [of db0 "fe_path e"] by simp
  qed
  let ?s1 = "s\<lparr>ix_existing_paths := insert p (ix_existing_paths s),
                ix_stat_calls := ix_stat_calls s @ [p]\<rparr>"
  have same: "index_inv stat idx0 s'"
    if "ix_index s' = ix_index s" "ix_new_files s' = ix_new_files s"
      "ix_updated_files s' = ix_updated_files s" for s'
    using j that by (simp add: index_inv_def)
  show ?thesis
  proof (cases "stat p")
    case None
    then have "incremental_visit stat (get_indexed_paths db0) r f s = ?s1"
      by (simp add: incremental_visit_def p_def Let_def)
    then show ?thesis by (simp add: same)
  next
    case (Some st)
    let ?e = "make_entry f p st"
    show ?thesis
    proof (cases "p \<in> get_indexed_paths db0")
      case False
      define s' where "s' = count_checked (?s1\<lparr>ix_new_files := ix_new_files s @ [?e],
          ix_index := ix_index s @ [?e]\<rparr>)"
      have eq: "incremental_visit stat (get_indexed_paths db0) r f s = s'"
        using Some False by (simp add: incremental_visit_def p_def Let_def s'_def)
      have f1: "ix_index s' = ix_index s @ [?e]" "ix_new_files s' = ix_new_files s @ [?e]"
        "ix_updated_files s' = ix_updated_files s"
        by (simp_all add: s'_def)
      have A: "set (ix_new_files s') \<subseteq> set (ix_index s')"
        using J1 by (auto simp: f1)
      have B: "ix_find q (ix_index s') = ix_find q idx0"
        if "\<forall>e \<in> set (ix_new_files s' @ ix_updated_files s'). fe_path e \<noteq> q" for q
      proof -
        from that have "q \<noteq> p" and "\<forall>e \<in> set (ix_new_files s @ ix_updated_files s). fe_path e \<noteq> q"
          by (auto simp: f1)
        then show ?thesis
          using J2 [of q] by (simp add: f1 ix_find_append split: option.splits)
      qed
      have C: "\<exists>e st'. ix_find q (ix_index s') = Some e \<and> stat q = Some st' \<and> from_stat st' e"
        if "\<exists>e \<in> set (ix_updated_files s'). fe_path e = q" "ix_find q idx0 \<noteq> None" for q
      proof -
        from that(1) have "\<exists>e \<in> set (ix_updated_files s). fe_path e = q" by (simp add: f1)
        from J3 [OF this that(2)] show ?thesis
          by (auto simp: f1 ix_find_append)
      qed
      show ?thesis
        unfolding eq index_inv_def using A B C by blast
    next
      case True
      show ?thesis
      proof (cases "get_file_info db0 p")
        case None
        then have "incremental_visit stat (get_indexed_paths db0) r f s = count_checked ?s1"
          using Some True db by (simp add: incremental_visit_def p_def Let_def)
        then show ?thesis by (simp add: same)
      next
        case info: (Some info)
        show ?thesis
        proof (cases "st_size st \<noteq> ci_size info \<or> \<bar>float_sub (st_mtime st) (ci_modified info)\<bar> > 1")
          case False
          then have "incremental_visit stat (get_indexed_paths db0) r f s = count_checked ?s1"
            using Some True db info by (simp add: incremental_visit_def p_def Let_def)
          then show ?thesis by (simp add: same)
        next
          case changed: True
          define s' where "s' = count_checked (?s1\<lparr>ix_updated_files := ix_updated_files s @ [?e],
              ix_index := replace_first p ?e (ix_index s)\<rparr>)"
          have eq: "incremental_visit stat (get_indexed_paths db0) r f s = s'"
            using Some True db info changed
            by (simp add: incremental_visit_def p_def Let_def s'_def)
          have f1: "ix_index s' = replace_first p ?e (ix_index s)"
            "ix_new_files s' = ix_new_files s"
            "ix_updated_files s' = ix_updated_files s @ [?e]"
            by (simp_all add: s'_def)
          have pe: "fe_path ?e = p" by simp
          have A: "set (ix_new_files s') \<subseteq> set (ix_index s')"
          proof
            fix x assume x: "x \<in> set (ix_new_files s')"
            then have "x \<in> set (ix_index s)" using J1 by (auto simp: f1)
            moreover have "fe_path x \<noteq> p" using new_out x True by (auto simp: f1)
            ultimately show "x \<in> set (ix_index s')"
              unfolding f1 by (rule set_replace_first_other)
          qed
          have B: "ix_find q (ix_index s') = ix_find q idx0"
            if "\<forall>e \<in> set (ix_new_files s' @ ix_updated_files s'). fe_path e \<noteq> q" for q
          proof -
            from that have "q \<noteq> p" and "\<forall>e \<in> set (ix_new_files s @ ix_updated_files s). fe_path e \<noteq> q"
              by (auto simp: f1)
            then show ?thesis
              using J2 [of q] by (simp add: f1 ix_find_replace_first [OF pe])
          qed
          have C: "\<exists>e st'. ix_find q (ix_index s') = Some e \<and> stat q = Some st' \<and> from_stat st' e"
            if u: "\<exists>e \<in> set (ix_updated_files s'). fe_path e = q" and n: "ix_find q idx0 \<noteq> None" for q
          proof (cases "q = p")
            case False
            with u have "\<exists>e \<in> set (ix_updated_files s). fe_path e = q" by (auto simp: f1)
            from J3 [OF this n] False show ?thesis
              by (simp add: f1 ix_find_replace_first [OF pe])
          next
            case qp: True
            have "ix_find p (ix_index s) \<noteq> None"
            proof (cases "\<exists>e \<in> set (ix_updated_files s). fe_path e = p")
              case True
              from J3 [OF this] n qp show ?thesis by auto
            next
              case False
              moreover have "\<forall>e \<in> set (ix_new_files s). fe_path e \<noteq> p"
                using new_out \<open>p \<in> get_indexed_paths db0\<close> by blast
              ultimately have "ix_find p (ix_index s) = ix_find p idx0"
                by (intro J2) auto
              then show ?thesis using n qp by simp
            qed
            then have "ix_find p (ix_index s') = Some ?e"
              by (auto simp: f1 ix_find_replace_first [OF pe])
            moreover have "from_stat st ?e" by (simp add: from_stat_def)
            ultimately show ?thesis using Some qp by blast
          qed
          show ?thesis
            unfolding eq index_inv_def using A B C by blast
        qed
      qed
    qed
  qed
qed

lemma both_inv_files:
  "walk_inv stat db0 s \<Longrightarrow> index_inv stat idx0 s \<Longrightarrow>
   index_inv stat idx0 (incremental_files k stat (get_indexed_paths db0) r fs s)"
  by (induction fs arbitrary: s) (simp_all add: walk_inv_visit index_inv_visit)

lemma both_inv_dirs:
  "walk_inv stat db0 s \<Longrightarrow> index_inv stat idx0 s \<Longrightarrow>
   index_inv stat idx0 (incremental_dirs k stat (get_indexed_paths db0) ds s)"
  by (induction k stat "get_indexed_paths db0" ds s rule: incremental_dirs.induct)
     (simp_all add: walk_inv_files both_inv_files)

lemma both_inv_drives:
  "walk_inv stat db0 s \<Longrightarrow> index_inv stat idx0 s \<Longrightarrow>
   index_inv stat idx0 (incremental_drives k stat (get_indexed_paths db0) ds s)"
  by (induction k stat "get_indexed_paths db0" ds s rule: incremental_drives.induct)
     (simp_all add: walk_inv_dirs both_inv_dirs)

lemma index_inv_walk: "index_inv stat (ix_index s) (incremental_walk k stat drives s)"
  unfolding incremental_walk_def Let_def
  by (simp add: emit_def, rule both_inv_drives) (simp_all add: walk_inv_def index_inv_def)

lemma incremental_finish_index [simp]: "ix_index (incremental_finish k w) = ix_index w"
  by (simp add: incremental_finish_def Let_def)

text \<open>
  The records of a visited path whose \<open>os.stat\<close> succeeded: entries collected and rows
  stored.
\<close>

lemma visit_records:
  assumes "ix_db_manager s"
    and "p \<in> ix_existing_paths (incremental_update k stat drives s)"
    and "stat p = Some st"
  shows "case get_file_info (ix_db s) p of
           None \<Rightarrow>
             (\<exists>e \<in> set (ix_new_files (incremental_update k stat drives s)).
                 fe_path e = p \<and> fe_size e = st_size st \<and> fe_modified e = st_mtime st)
             \<and> get_file_info (ix_db (incremental_update k stat drives s)) p
                 = Some \<lparr>ci_size = st_size st, ci_modified = st_mtime st\<rparr>
         | Some info \<Rightarrow>
             if st_size st \<noteq> ci_size info \<or> \<bar>float_sub (st_mtime st) (ci_modified info)\<bar> > 1
             then (\<exists>e \<in> set (ix_updated_files (incremental_update k stat drives s)).
                     fe_path e = p \<and> fe_size e = st_size st \<and> fe_modified e = st_mtime st)
                  \<and> get_file_info (ix_db (incremental_update k stat drives s)) p
                      = Some \<lparr>ci_size = st_size st, ci_modified = st_mtime st\<rparr>
             else (\<forall>e \<in> set (ix_new_files (incremental_update k stat drives s)
                               @ ix_updated_files (incremental_update k stat drives s)).
                     fe_path e \<noteq> p)
                  \<and> get_file_info (ix_db (incremental_update k stat drives s)) p = Some info"
proof -
  let ?s' = "incremental_update k stat drives s"
  let ?db0 = "ix_db s"
  obtain w where inv: "walk_inv stat ?db0 w"
    and new: "ix_new_files ?s' = ix_new_files w"
    and upd: "ix_updated_files ?s' = ix_updated_files w"
    and ex: "ix_existing_paths ?s' = ix_existing_paths w"
    and db: "ix_db ?s' = remove_deleted_files
           (save_file_index (save_file_index ?db0 (ix_new_files w)) (ix_updated_files w))
           (ix_existing_paths w)"
    using incremental_update_inv [OF assms(1)] by blast
  have pex: "p \<in> ix_existing_paths w" using assms(2) ex by simp
  have I2: "\<And>e. e \<in> set (ix_new_files w) \<Longrightarrow>
      fe_path e \<notin> get_indexed_paths ?db0 \<and> (\<exists>st'. stat (fe_path e) = Some st' \<and> from_stat st' e)"
    using inv by (simp add: walk_inv_def)
  have I3: "\<And>e. e \<in> set (ix_updated_files w) \<Longrightarrow>
      \<exists>st' info. stat (fe_path e) = Some st' \<and> from_stat st' e
         \<and> get_file_info ?db0 (fe_path e) = Some info
         \<and> (st_size st' \<noteq> ci_size info \<or> \<bar>float_sub (st_mtime st') (ci_modified info)\<bar> > 1)"
    using inv by (simp add: walk_inv_def)
  have I4n: "p \<notin> get_indexed_paths ?db0 \<Longrightarrow> \<exists>e \<in> set (ix_new_files w). fe_path e = p"
    using inv pex assms(3) by (simp add: walk_inv_def)
  have I4u: "\<And>info. get_file_info ?db0 p = Some info \<Longrightarrow>
      st_size st \<noteq> ci_size info \<or> \<bar>float_sub (st_mtime st) (ci_modified info)\<bar> > 1 \<Longrightarrow>
      \<exists>e \<in> set (ix_updated_files w). fe_path e = p"
    using inv pex assms(3) unfolding walk_inv_def by blast
  have new_info: "\<And>e. e \<in> set (ix_new_files w) \<Longrightarrow> fe_path e = p \<Longrightarrow> from_stat st e"
    using I2 assms(3) by fastforce
  have upd_info: "\<And>e. e \<in> set (ix_updated_files w) \<Longrightarrow> fe_path e = p \<Longrightarrow> from_stat st e"
    using I3 assms(3) by fastforce
  have final: "get_file_info (ix_db ?s') p =
      get_file_info (save_file_index (save_file_index ?db0 (ix_new_files w)) (ix_updated_files w)) p"
    using pex by (simp add: db get_file_info_remove_deleted)
  show ?thesis
  proof (cases "get_file_info ?db0 p")
    case None
    then have notin: "p \<notin> get_indexed_paths ?db0" by (simp add: get_file_info_None)
    then obtain e where e: "e \<in> set (ix_new_files w)" "fe_path e = p" using I4n by blast
    have fs: "from_stat st e" using new_info e by blast
    have no_upd: "\<forall>e \<in> set (ix_updated_files w). fe_path e \<noteq> p"
      using I3 None by fastforce
    have "get_file_info (save_file_index ?db0 (ix_new_files w)) p = Some (info_of_stat st)"
      by (rule get_file_info_save_same) (use e new_info from_stat_info in blast)+
    then have "get_file_info (ix_db ?s') p = Some (info_of_stat st)"
      using final no_upd by (simp add: get_file_info_save_other)
    then show ?thesis
      using None e fs by (auto simp: new info_of_stat_def from_stat_def)
  next
    case (Some info)
    then have isin: "p \<in> get_indexed_paths ?db0"
      using get_file_info_None [of ?db0 p] by simp
    have no_new: "\<forall>e \<in> set (ix_new_files w). fe_path e \<noteq> p"
      using I2 isin by blast
    show ?thesis
    proof (cases "st_size st \<noteq> ci_size info \<or> \<bar>float_sub (st_mtime st) (ci_modified info)\<bar> > 1")
      case True
      then obtain e where e: "e \<in> set (ix_updated_files w)" "fe_path e = p"
        using I4u Some by blast
      have fs: "from_stat st e" using upd_info e by blast
      have "get_file_info (ix_db ?s') p = Some (info_of_stat st)"
        unfolding final
        by (rule get_file_info_save_same) (use e upd_info from_stat_info in blast)+
      then show ?thesis
        using Some True e fs by (auto simp: upd info_of_stat_def from_stat_def)
    next
      case False
      have no_upd: "\<forall>e \<in> set (ix_updated_files w). fe_path e \<noteq> p"
      proof
        fix e assume e: "e \<in> set (ix_updated_files w)"
        show "fe_path e \<noteq> p"
        proof
          assume "fe_path e = p"
          with I3 [OF e] assms(3) Some False show False by auto
        qed
      qed
      have "get_file_info (ix_db ?s') p = Some info"
        using final no_new no_upd Some by (simp add: get_file_info_save_other)
      then show ?thesis
        using Some False no_new no_upd by (auto simp: new upd)
    qed
  qed
qed

lemma incremental_update_index_inv:
  assumes "ix_db_manager s"
  shows "\<exists>w. walk_inv stat (ix_db s) w \<and> index_inv stat (ix_index s) w
     \<and> ix_new_files (incremental_update k stat drives s) = ix_new_files w
     \<and> ix_updated_files (incremental_update k stat drives s) = ix_updated_files w
     \<and> ix_existing_paths (incremental_update k stat drives s) = ix_existing_paths w
     \<and> ix_index (incremental_update k stat drives s) = ix_index w
     \<and> ix_db (incremental_update k stat drives s) =
         remove_deleted_files
           (save_file_index (save_file_index (ix_db s) (ix_new_files w)) (ix_updated_files w))
           (ix_existing_paths w)"
proof -
  let ?w = "incremental_walk k stat drives s"
  have inv: "walk_inv stat (ix_db s) ?w" by (rule walk_inv_walk)
  have jnv: "index_inv stat (ix_index s) ?w" by (rule index_inv_walk)
  from inv have "ix_db ?w = ix_db s" by (simp add: walk_inv_def)
  then show ?thesis
    using assms inv jnv
    by (intro exI [of _ ?w]) (simp add: incremental_update_def incremental_finish_fields)
qed

lemma visit_skipped:
  assumes "ix_db_manager s"
    and "p \<in> ix_existing_paths (incremental_update k stat drives s)"
    and "stat p = None"
  shows "(\<forall>e \<in> set (ix_new_files (incremental_update k stat drives s)
                    @ ix_updated_files (incremental_update k stat drives s)). fe_path e \<noteq> p)
     \<and> get_file_info (ix_db (incremental_update k stat drives s)) p = get_file_info (ix_db s) p
     \<and> ix_find p (ix_index (incremental_update k stat drives s)) = ix_find p (ix_index s)"
proof -
  let ?s' = "incremental_update k stat drives s"
  obtain w where inv: "walk_inv stat (ix_db s) w" and jnv: "index_inv stat (ix_index s) w"
    and new: "ix_new_files ?s' = ix_new_files w"
    and upd: "ix_updated_files ?s' = ix_updated_files w"
    and ex: "ix_existing_paths ?s' = ix_existing_paths w"
    and idx: "ix_index ?s' = ix_index w"
    and db: "ix_db ?s' = remove_deleted_files
           (save_file_index (save_file_index (ix_db s) (ix_new_files w)) (ix_updated_files w))
           (ix_existing_paths w)"
    using incremental_update_index_inv [OF assms(1)] by blast
  have no_new: "\<forall>e \<in> set (ix_new_files w). fe_path e \<noteq> p"
    using inv assms(3) unfolding walk_inv_def by fastforce
  have no_upd: "\<forall>e \<in> set (ix_updated_files w). fe_path e \<noteq> p"
    using inv assms(3) unfolding walk_inv_def by fastforce
  have none: "\<forall>e \<in> set (ix_new_files w @ ix_updated_files w). fe_path e \<noteq> p"
    using no_new no_upd by auto
  have "p \<in> ix_existing_paths w" using assms(2) ex by simp
  then have d: "get_file_info (ix_db ?s') p = get_file_info (ix_db s) p"
    using no_new no_upd by (simp add: db get_file_info_remove_deleted get_file_info_save_other)
  have i: "ix_find p (ix_index w) = ix_find p (ix_index s)"
    using jnv none unfolding index_inv_def by blast
  show ?thesis
    using none d i by (simp add: new upd idx)
qed

lemma visit_index:
  assumes "ix_db_manager s"
  shows "(\<forall>e \<in> set (ix_new_files (incremental_update k stat drives s)).
            e \<in> set (ix_index (incremental_update k stat drives s)))
     \<and> ((\<forall>e \<in> set (ix_new_files (incremental_update k stat drives s)
                    @ ix_updated_files (incremental_update k stat drives s)). fe_path e \<noteq> p) \<longrightarrow>
          ix_find p (ix_index (incremental_update k stat drives s)) = ix_find p (ix_index s))
     \<and> ((\<exists>e \<in> set (ix_updated_files (incremental_update k stat drives s)). fe_path e = p) \<longrightarrow>
          ix_find p (ix_index s) \<noteq> None \<longrightarrow>
          (\<exists>e st. ix_find p (ix_index (incremental_update k stat drives s)) = Some e
                 \<and> stat p = Some st \<and> from_stat st e))"
proof -
  let ?s' = "incremental_update k stat drives s"
  obtain w where jnv: "index_inv stat (ix_index s) w"
    and new: "ix_new_files ?s' = ix_new_files w"
    and upd: "ix_updated_files ?s' = ix_updated_files w"
    and idx: "ix_index ?s' = ix_index w"
    using incremental_update_index_inv [OF assms(1)] by blast
  show ?thesis
    unfolding new upd idx using jnv unfolding index_inv_def by blast
qed

text \<open>
  Claim C3, amended. In an incremental scan (cancelled or not) over an open database,
  take a visited path. If its \<open>os.stat\<close> fails, nothing is recorded or stored for it and
  its row and index entry stay as they were. If its \<open>os.stat\<close> succeeds and the path is
  not cached, an entry with its current size and time is recorded in \<open>new_files\<close>, added
  to the index and stored. If it succeeds and the path is cached, an entry is recorded
  in \<open>updated_files\<close>, stored, and put in place of the index entry of the path (when the
  index holds one) exactly when the size differs or the difference of the time stamps,
  computed in double precision, exceeds 1 in absolute value; otherwise no entry is
  recorded for it and its row and its index entry stay as they were.
\<close>

theorem incremental_visit_outcome:
  assumes "ix_db_manager s"
    and "p \<in> ix_existing_paths (incremental_update k stat drives s)"
  shows "case stat p of
           None \<Rightarrow>
             (\<forall>e \<in> set (ix_new_files (incremental_update k stat drives s)
                           @ ix_updated_files (incremental_update k stat drives s)).
                 fe_path e \<noteq> p)
             \<and> get_file_info (ix_db (incremental_update k stat drives s)) p
                 = get_file_info (ix_db s) p
             \<and> ix_find p (ix_index (incremental_update k stat drives s)) = ix_find p (ix_index s)
         | Some st \<Rightarrow>
            (case get_file_info (ix_db s) p of
               None \<Rightarrow>
                 (\<exists>e \<in> set (ix_new_files (incremental_update k stat drives s)).
                     fe_path e = p \<and> fe_size e = st_size st \<and> fe_modified e = st_mtime st
                     \<and> e \<in> set (ix_index (incremental_update k stat drives s)))
                 \<and> get_file_info (ix_db (incremental_update k stat drives s)) p
                     = Some \<lparr>ci_size = st_size st, ci_modified = st_mtime st\<rparr>
             | Some info \<Rightarrow>
                 if st_size st \<noteq> ci_size info
                    \<or> \<bar>float_sub (st_mtime st) (ci_modified info)\<bar> > 1
                 then (\<exists>e \<in> set (ix_updated_files (incremental_update k stat drives s)).
                         fe_path e = p \<and> fe_size e = st_size st \<and> fe_modified e = st_mtime st)
                      \<and> get_file_info (ix_db (incremental_update k stat drives s)) p
                          = Some \<lparr>ci_size = st_size st, ci_modified = st_mtime st\<rparr>
                      \<and> (ix_find p (ix_index s) \<noteq> None \<longrightarrow>
                           (\<exists>e. ix_find p (ix_index (incremental_update k stat drives s)) = Some e
                                \<and> fe_size e = st_size st \<and> fe_modified e = st_mtime st))
                 else (\<forall>e \<in> set (ix_new_files (incremental_update k stat drives s)
                                   @ ix_updated_files (incremental_update k stat drives s)).
                         fe_path e \<noteq> p)
                      \<and> get_file_info (ix_db (incremental_update k stat drives s)) p = Some info
                      \<and> ix_find p (ix_index (incremental_update k stat drives s))
                          = ix_find p (ix_index s))"
proof (cases "stat p")
  case None
  from visit_skipped [OF assms None] show ?thesis
    by (simp add: None)
next
  case (Some st)
  note R = visit_records [OF assms Some]
  note X = visit_index [OF assms(1), of k stat drives p]
  show ?thesis
  proof (cases "get_file_info (ix_db s) p")
    case None
    from R None obtain e where e: "e \<in> set (ix_new_files (incremental_update k stat drives s))"
      "fe_path e = p" "fe_size e = st_size st" "fe_modified e = st_mtime st"
      by auto
    with X have "e \<in> set (ix_index (incremental_update k stat drives s))" by blast
    with e R None show ?thesis
      by (auto simp: Some)
  next
    case info: (Some info)
    show ?thesis
    proof (cases "st_size st \<noteq> ci_size info \<or> \<bar>float_sub (st_mtime st) (ci_modified info)\<bar> > 1")
      case True
      from R info True
      have r1: "\<exists>e \<in> set (ix_updated_files (incremental_update k stat drives s)).
                         fe_path e = p \<and> fe_size e = st_size st \<and> fe_modified e = st_mtime st"
        and r2: "get_file_info (ix_db (incremental_update k stat drives s)) p
                          = Some \<lparr>ci_size = st_size st, ci_modified = st_mtime st\<rparr>"
        by auto
      have r3: "\<exists>e. ix_find p (ix_index (incremental_update k stat drives s)) = Some e
                   \<and> fe_size e = st_size st \<and> fe_modified e = st_mtime st"
        if "ix_find p (ix_index s) \<noteq> None"
      proof -
        from r1 have "\<exists>e \<in> set (ix_updated_files (incremental_update k stat drives s)). fe_path e = p"
          by blast
        with X that obtain e st' where
          "ix_find p (ix_index (incremental_update k stat drives s)) = Some e"
          "stat p = Some st'" "from_stat st' e"
          by blast
        with Some show ?thesis by (auto simp: from_stat_def)
      qed
      show ?thesis
        using r1 r2 r3 True by (simp add: Some info)
    next
      case False
      from R info False
      have r1: "\<forall>e \<in> set (ix_new_files (incremental_update k stat drives s)
                                   @ ix_updated_files (incremental_update k stat drives s)).
                         fe_path e \<noteq> p"
        and r2: "get_file_info (ix_db (incremental_update k stat drives s)) p = Some info"
        by auto
      from X r1 have r3: "ix_find p (ix_index (incremental_update k stat drives s))
                          = ix_find p (ix_index s)"
        by blast
      show ?thesis
        using r1 r2 r3 False by (simp add: Some info)
    qed
  qed
qed

lemma bit_length_0: "bit_length 0 = 0"
  by (subst bit_length.simps) simp

lemma bit_length_1: "bit_length (Suc 0) = 1"
  by (subst bit_length.simps) (simp add: bit_length_0)

lemma round_half_even_half:
  "round_half_even (of_int n + 1 / 2) = (if even n then n else n + 1)"
proof -
  have "\<lfloor>of_int n + 1 / 2 :: real\<rfloor> = n"
    by (simp add: floor_eq_iff)
  then show ?thesis
    by (simp add: round_half_even_def Let_def)
qed

lemma pow2_m52: "pow2 (- 52) = 1 / 2 ^ 52"
  by (simp add: pow2_def)

lemma float_sub_tie: "float_sub tie_current_time tie_cached_time = 1"
proof -
  define x :: real where "x = 1 + 1 / 2 ^ 52 - 1 / 2 ^ 53"
  have fl: "\<lfloor>\<bar>x\<bar>\<rfloor> = 1"
    by (simp add: x_def floor_eq_iff)
  have ge: "\<bar>x\<bar> \<ge> 1" by (simp add: x_def)
  have e: "double_exponent x = 0"
    using ge by (simp add: double_exponent_def Let_def fl bit_length_1)
  have q: "x / pow2 (- 52) = of_int (2 ^ 52) + 1 / 2"
    by (simp add: x_def pow2_m52)
  have r: "round_half_even (x / pow2 (- 52)) = 2 ^ 52"
    unfolding q round_half_even_half by simp
  have nz: "x \<noteq> 0" by (simp add: x_def)
  have "round_to_double x = of_int (2 ^ 52) * pow2 (- 52)"
    using nz by (simp add: round_to_double_def Let_def e r)
  also have "\<dots> = 1" by (simp add: pow2_m52)
  finally show ?thesis
    by (simp add: float_sub_def x_def tie_current_time_def tie_cached_time_def)
qed

lemma tie_times_differ: "\<bar>tie_current_time - tie_cached_time\<bar> > 1"
  by (simp add: tie_current_time_def tie_cached_time_def)

lemma tie_run:
  "ix_updated_files (incremental_update None tie_stat [(''/'', tie_tree)] tie_indexer) = []
   \<and> ix_new_files (incremental_update None tie_stat [(''/'', tie_tree)] tie_indexer) = []
   \<and> ix_existing_paths (incremental_update None tie_stat [(''/'', tie_tree)] tie_indexer) = {''/a''}
   \<and> ix_db (incremental_update None tie_stat [(''/'', tie_tree)] tie_indexer)
       = [cached_file ''/a'' 1 tie_cached_time]
   \<and> ix_index (incremental_update None tie_stat [(''/'', tie_tree)] tie_indexer)
       = [cached_file ''/a'' 1 tie_cached_time]"
  by (simp add: incremental_update_def incremental_walk_def incremental_finish_def
      tie_indexer_def tie_stat_def tie_tree_def SystemIndexerThread_init_def os_walk.simps
      incremental_visit_def get_indexed_paths_def get_file_info_def cached_file_def
      os_path_join_def emit_def read_flag_def count_checked_def Let_def float_sub_tie
      remove_deleted_files_def)

text \<open>
  Claim C3, as the specification states it, fails in two ways. A visited path that is
  absent from the cache is not recorded when its \<open>os.stat\<close> fails: \<open>/x/gone\<close> enters
  \<open>existing_paths\<close> and the \<open>except\<close> clause skips it. And a cached path of unchanged size
  whose time stamps differ by more than 1 is not re-recorded when the double-precision
  difference is exactly 1: the stamps \<open>2^-53\<close> and \<open>1 + 2^-52\<close> differ by
  \<open>1 + 2^-53\<close>, the program computes \<open>1.0\<close>, and its row stays as it was.
\<close>

theorem incremental_skips_failed_stat_and_rounded_tie:
  "''/x/gone'' \<in> ix_existing_paths
       (incremental_update None example_stat [(''/'', example_tree)] example_indexer)
   \<and> get_file_info (ix_db example_indexer) ''/x/gone'' = None
   \<and> example_stat ''/x/gone'' = None
   \<and> map fe_path (ix_new_files
        (incremental_update None example_stat [(''/'', example_tree)] example_indexer)) = [''/a'']
   \<and> ''/a'' \<in> ix_existing_paths (incremental_update None tie_stat [(''/'', tie_tree)] tie_indexer)
   \<and> get_file_info (ix_db tie_indexer) ''/a'' = Some \<lparr>ci_size = 1, ci_modified = tie_cached_time\<rparr>
   \<and> tie_stat ''/a'' = Some \<lparr>st_size = 1, st_mtime = tie_current_time\<rparr>
   \<and> \<bar>tie_current_time - tie_cached_time\<bar> > 1
   \<and> ix_updated_files (incremental_update None tie_stat [(''/'', tie_tree)] tie_indexer) = []
   \<and> get_file_info (ix_db (incremental_update None tie_stat [(''/'', tie_tree)] tie_indexer)) ''/a''
       = Some \<lparr>ci_size = 1, ci_modified = tie_cached_time\<rparr>"
proof -
  let ?r1 = "incremental_update None example_stat [(''/'', example_tree)] example_indexer"
  have a1: "''/x/gone'' \<in> ix_existing_paths ?r1" by code_simp
  have a2: "get_file_info (ix_db example_indexer) ''/x/gone'' = None" by code_simp
  have a3: "example_stat ''/x/gone'' = None" by code_simp
  have a4: "map fe_path (ix_new_files ?r1) = [''/a'']" by code_simp
  have b2: "get_file_info (ix_db tie_indexer) ''/a''
      = Some \<lparr>ci_size = 1, ci_modified = tie_cached_time\<rparr>"
    by (simp add: tie_indexer_def SystemIndexerThread_init_def get_file_info_def cached_file_def)
  have b3: "tie_stat ''/a'' = Some \<lparr>st_size = 1, st_mtime = tie_current_time\<rparr>"
    by (simp add: tie_stat_def)
  have b6: "get_file_info [cached_file ''/a'' 1 tie_cached_time] ''/a''
      = Some \<lparr>ci_size = 1, ci_modified = tie_cached_time\<rparr>"
    by (simp add: get_file_info_def cached_file_def)
  show ?thesis
    using a1 a2 a3 a4 b2 b3 b6 tie_times_differ tie_run by simp
qed

theorem incremental_visit_outcome_witness:
  "ix_db_manager example_indexer_loaded
   \<and> ''/x/c'' \<in> ix_existing_paths
        (incremental_update None example_stat [(''/'', example_tree)] example_indexer_loaded)
   \<and> get_file_info
        (ix_db (incremental_update None example_stat [(''/'', example_tree)] example_indexer_loaded))
        ''/x/c'' = Some \<lparr>ci_size = 4, ci_modified = 5\<rparr>
   \<and> (\<exists>e. ix_find ''/x/c''
          (ix_index (incremental_update None example_stat [(''/'', example_tree)]
             example_indexer_loaded)) = Some e
        \<and> fe_size e = 4 \<and> fe_modified e = 5)
   \<and> ''/x/b'' \<in> ix_existing_paths
        (incremental_update None example_stat [(''/'', example_tree)] example_indexer_loaded)
   \<and> get_file_info
        (ix_db (incremental_update None example_stat [(''/'', example_tree)] example_indexer_loaded))
        ''/x/b'' = Some \<lparr>ci_size = 4, ci_modified = 4\<rparr>
   \<and> ix_find ''/x/b''
        (ix_index (incremental_update None example_stat [(''/'', example_tree)]
           example_indexer_loaded)) = Some (cached_file ''/x/b'' 4 4)
   \<and> ''/x/gone'' \<in> ix_existing_paths
        (incremental_update None example_stat [(''/'', example_tree)] example_indexer_loaded)
   \<and> get_file_info
        (ix_db (incremental_update None example_stat [(''/'', example_tree)] example_indexer_loaded))
        ''/x/gone'' = None"
proof -
  let ?s = "example_indexer_loaded"
  let ?s' = "incremental_update None example_stat [(''/'', example_tree)] example_indexer_loaded"
  have h1: "ix_db_manager ?s" by code_simp
  have c2: "''/x/c'' \<in> ix_existing_paths ?s'" by code_simp
  have c3: "example_stat ''/x/c'' = Some \<lparr>st_size = 4, st_mtime = 5\<rparr>" by code_simp
  have c4: "get_file_info (ix_db ?s) ''/x/c'' = Some \<lparr>ci_size = 9, ci_modified = 5\<rparr>"
    by code_simp
  have c5: "ix_find ''/x/c'' (ix_index ?s) \<noteq> None" by code_simp
  have b2: "''/x/b'' \<in> ix_existing_paths ?s'" by code_simp
  have b3: "example_stat ''/x/b'' = Some \<lparr>st_size = 4, st_mtime = 5\<rparr>" by code_simp
  have b4: "get_file_info (ix_db ?s) ''/x/b'' = Some \<lparr>ci_size = 4, ci_modified = 4\<rparr>"
    by code_simp
  have b5: "\<not> \<bar>float_sub 5 4\<bar> > 1" by code_simp
  have b6: "ix_find ''/x/b'' (ix_index ?s) = Some (cached_file ''/x/b'' 4 4)" by code_simp
  have g2: "''/x/gone'' \<in> ix_existing_paths ?s'" by code_simp
  have g3: "example_stat ''/x/gone'' = None" by code_simp
  have g4: "get_file_info (ix_db ?s) ''/x/gone'' = None" by code_simp
  from incremental_visit_outcome [OF h1 c2]
  have c: "get_file_info (ix_db ?s') ''/x/c'' = Some \<lparr>ci_size = 4, ci_modified = 5\<rparr>
      \<and> (\<exists>e. ix_find ''/x/c'' (ix_index ?s') = Some e \<and> fe_size e = 4 \<and> fe_modified e = 5)"
    using c5 by (simp add: c3 c4)
  from incremental_visit_outcome [OF h1 b2]
  have b: "get_file_info (ix_db ?s') ''/x/b'' = Some \<lparr>ci_size = 4, ci_modified = 4\<rparr>
      \<and> ix_find ''/x/b'' (ix_index ?s') = Some (cached_file ''/x/b'' 4 4)"
    using b5 by (simp add: b3 b4 b6)
  from incremental_visit_outcome [OF h1 g2]
  have g: "get_file_info (ix_db ?s') ''/x/gone'' = None"
    by (simp add: g3 g4)
  show ?thesis
    using h1 c2 c b2 b g2 g by blast
qed

text \<open>
  Claim C10. Whatever the stop schedule, also when the walk is cancelled midway, the
  final steps of \<open>incremental_update\<close> run: every cached path that is not among the paths
  visited so far has no row afterwards, and every entry collected in \<open>new_files\<close> or
  \<open>updated_files\<close> is stored. The witness cancels the walk after \<open>/a\<close>: the row of
  \<open>/x/b\<close>, a file still on disk, is deleted.
\<close>

theorem incremental_prunes_unvisited:
  assumes "ix_db_manager s"
  shows "(\<forall>p \<in> get_indexed_paths (ix_db s).
            p \<notin> ix_existing_paths (incremental_update k stat drives s) \<longrightarrow>
            get_file_info (ix_db (incremental_update k stat drives s)) p = None)
   \<and> (\<forall>e \<in> set (ix_new_files (incremental_update k stat drives s)
                  @ ix_updated_files (incremental_update k stat drives s)).
            get_file_info (ix_db (incremental_update k stat drives s)) (fe_path e)
              = Some \<lparr>ci_size = fe_size e, ci_modified = fe_modified e\<rparr>)"
proof -
  let ?s' = "incremental_update k stat drives s"
  let ?db0 = "ix_db s"
  obtain w where inv: "walk_inv stat ?db0 w"
    and new: "ix_new_files ?s' = ix_new_files w"
    and upd: "ix_updated_files ?s' = ix_updated_files w"
    and ex: "ix_existing_paths ?s' = ix_existing_paths w"
    and db: "ix_db ?s' = remove_deleted_files
           (save_file_index (save_file_index ?db0 (ix_new_files w)) (ix_updated_files w))
           (ix_existing_paths w)"
    using incremental_update_inv [OF assms(1)] by blast
  have I2: "\<And>e. e \<in> set (ix_new_files w) \<Longrightarrow>
      fe_path e \<in> ix_existing_paths w \<and> fe_path e \<notin> get_indexed_paths ?db0
      \<and> (\<exists>st'. stat (fe_path e) = Some st' \<and> from_stat st' e)"
    using inv by (simp add: walk_inv_def)
  have I3: "\<And>e. e \<in> set (ix_updated_files w) \<Longrightarrow>
      fe_path e \<in> ix_existing_paths w
      \<and> (\<exists>st' info. stat (fe_path e) = Some st' \<and> from_stat st' e
         \<and> get_file_info ?db0 (fe_path e) = Some info)"
    using inv unfolding walk_inv_def by blast
  have pruned: "get_file_info (ix_db ?s') p = None" if "p \<notin> ix_existing_paths ?s'" for p
    using that by (simp add: db ex get_file_info_remove_deleted)
  have has_stat: "\<exists>st'. stat (fe_path e) = Some st' \<and> from_stat st' e"
    if "e \<in> set (ix_new_files w @ ix_updated_files w)" for e
    using that I2 I3 by (cases "e \<in> set (ix_new_files w)") auto
  have same_info: "info_of e' = info_of e"
    if m1: "e \<in> set (ix_new_files w @ ix_updated_files w)"
      and m2: "e' \<in> set (ix_new_files w @ ix_updated_files w)"
      and eq: "fe_path e' = fe_path e" for e e'
  proof -
    obtain st1 where 1: "stat (fe_path e) = Some st1" "from_stat st1 e"
      using has_stat [OF m1] by blast
    obtain st2 where 2: "stat (fe_path e') = Some st2" "from_stat st2 e'"
      using has_stat [OF m2] by blast
    from 1 2 eq show ?thesis
      by (simp add: from_stat_info)
  qed
  have persisted: "get_file_info (ix_db ?s') (fe_path e) = Some (info_of e)"
    if e: "e \<in> set (ix_new_files w @ ix_updated_files w)" for e
  proof -
    have pex: "fe_path e \<in> ix_existing_paths w"
      using e I2 I3 by auto
    then have final: "get_file_info (ix_db ?s') (fe_path e) =
        get_file_info (save_file_index (save_file_index ?db0 (ix_new_files w)) (ix_updated_files w))
          (fe_path e)"
      by (simp add: db get_file_info_remove_deleted)
    have same_upd: "\<forall>e' \<in> set (ix_updated_files w). fe_path e' = fe_path e \<longrightarrow> info_of e' = info_of e"
    proof (intro ballI impI)
      fix e' assume "e' \<in> set (ix_updated_files w)" and eq: "fe_path e' = fe_path e"
      then have "e' \<in> set (ix_new_files w @ ix_updated_files w)" by simp
      then show "info_of e' = info_of e" using eq by (rule same_info [OF e])
    qed
    have same_new: "\<forall>e' \<in> set (ix_new_files w). fe_path e' = fe_path e \<longrightarrow> info_of e' = info_of e"
    proof (intro ballI impI)
      fix e' assume "e' \<in> set (ix_new_files w)" and eq: "fe_path e' = fe_path e"
      then have "e' \<in> set (ix_new_files w @ ix_updated_files w)" by simp
      then show "info_of e' = info_of e" using eq by (rule same_info [OF e])
    qed
    show ?thesis
    proof (cases "\<exists>e' \<in> set (ix_updated_files w). fe_path e' = fe_path e")
      case True
      show ?thesis
        unfolding final using True same_upd by (rule get_file_info_save_same)
    next
      case False
      then have "e \<notin> set (ix_updated_files w)" by blast
      then have enew: "e \<in> set (ix_new_files w)" using e by simp
      then have ex_new: "\<exists>e' \<in> set (ix_new_files w). fe_path e' = fe_path e" by blast
      have "get_file_info (save_file_index ?db0 (ix_new_files w)) (fe_path e) = Some (info_of e)"
        using ex_new same_new by (rule get_file_info_save_same)
      moreover have "\<forall>e' \<in> set (ix_updated_files w). fe_path e' \<noteq> fe_path e"
        using False by blast
      ultimately show ?thesis
        unfolding final by (simp add: get_file_info_save_other)
    qed
  qed
  have persisted': "\<forall>e \<in> set (ix_new_files w @ ix_updated_files w).
      get_file_info (ix_db ?s') (fe_path e) = Some \<lparr>ci_size = fe_size e, ci_modified = fe_modified e\<rparr>"
    using persisted unfolding info_of_def by blast
  have pruned': "\<forall>p \<in> get_indexed_paths (ix_db s).
            p \<notin> ix_existing_paths ?s' \<longrightarrow> get_file_info (ix_db ?s') p = None"
    using pruned by blast
  show ?thesis
    using pruned' persisted' unfolding new upd by (rule conjI)
qed

theorem incremental_prunes_unvisited_witness:
  "ix_db_manager example_indexer
   \<and> ''/x/b'' \<in> get_indexed_paths (ix_db example_indexer)
   \<and> ''/x/b'' \<notin> ix_existing_paths
        (incremental_update (Some 3) example_stat [(''/'', example_tree)] example_indexer)
   \<and> example_stat ''/x/b'' \<noteq> None
   \<and> get_file_info
        (ix_db (incremental_update (Some 3) example_stat [(''/'', example_tree)] example_indexer))
        ''/x/b'' = None
   \<and> ix_new_files
        (incremental_update (Some 3) example_stat [(''/'', example_tree)] example_indexer)
       = [make_entry ''a'' ''/a'' \<lparr>st_size = 2, st_mtime = 5\<rparr>]
   \<and> get_file_info
        (ix_db (incremental_update (Some 3) example_stat [(''/'', example_tree)] example_indexer))
        ''/a'' = Some \<lparr>ci_size = 2, ci_modified = 5\<rparr>
   \<and> IndexingComplete 1 \<notin> set (ix_events
        (incremental_update (Some 3) example_stat [(''/'', example_tree)] example_indexer))"
proof -
  let ?s' = "incremental_update (Some 3) example_stat [(''/'', example_tree)] example_indexer"
  have h1: "ix_db_manager example_indexer"
    by code_simp
  have b1: "''/x/b'' \<in> get_indexed_paths (ix_db example_indexer)"
    by code_simp
  have b2: "''/x/b'' \<notin> ix_existing_paths ?s'"
    by code_simp
  have b3: "example_stat ''/x/b'' \<noteq> None"
    by code_simp
  have n1: "ix_new_files ?s' = [make_entry ''a'' ''/a'' \<lparr>st_size = 2, st_mtime = 5\<rparr>]"
    by code_simp
  have ev: "IndexingComplete 1 \<notin> set (ix_events ?s')"
    by code_simp
  note T = incremental_prunes_unvisited [OF h1, of "Some 3" example_stat "[(''/'', example_tree)]"]
  from T b1 b2 have b4: "get_file_info (ix_db ?s') ''/x/b'' = None"
    by blast
  from T have "get_file_info (ix_db ?s') (fe_path (make_entry ''a'' ''/a'' \<lparr>st_size = 2, st_mtime = 5\<rparr>))
      = Some \<lparr>ci_size = fe_size (make_entry ''a'' ''/a'' \<lparr>st_size = 2, st_mtime = 5\<rparr>),
               ci_modified = fe_modified (make_entry ''a'' ''/a'' \<lparr>st_size = 2, st_mtime = 5\<rparr>)\<rparr>"
    unfolding n1 by simp
  then have a4: "get_file_info (ix_db ?s') ''/a'' = Some \<lparr>ci_size = 2, ci_modified = 5\<rparr>"
    by simp
  show ?thesis
    using h1 b1 b2 b3 b4 n1 a4 ev by blast
qed

section \<open>Filename normalization\<close>

text \<open>
  Claim C2. The third pattern, \<open>\s*Copy$\<close>, needs no separator and ignores case, so it
  removes the \<open>copy\<close> of \<open>report_copy\<close> before the fourth pattern, \<open>_copy$\<close>, is tried:
  \<open>report_copy.txt\<close> normalizes to \<open>report_.txt\<close> on both platforms, not to \<open>report.txt\<close>
  as the docstring of \<open>normalize_filename\<close> announces. For the same reason names without
  a separator are altered (\<open>report(1).txt\<close>, \<open>photocopy.txt\<close>). The other examples of the
  claim hold.
\<close>

theorem normalize_filename_underscore_copy:
  "normalize_filename False ''report_copy.txt'' = ''report_.txt''
   \<and> normalize_filename True ''report_copy.txt'' = ''report_.txt''
   \<and> normalize_filename False ''report(1).txt'' = ''report.txt''
   \<and> normalize_filename False ''photocopy.txt'' = ''photo.txt''
   \<and> normalize_filename False ''report (1).txt'' = ''report.txt''
   \<and> normalize_filename False ''report - Copy.txt'' = ''report.txt''
   \<and> normalize_filename False ''report.txt'' = ''report.txt''
   \<and> normalize_filename False ''report2.txt'' = ''report2.txt''"
  by code_simp

section \<open>Deep duplicate scan\<close>

lemma dict_append_cases:
  assumes "(k', vs') \<in> set (dict_append k v m)"
  shows "(k', vs') \<in> set m \<or> (k' = k \<and> (vs' = [v] \<or> (\<exists>vs. (k, vs) \<in> set m \<and> vs' = vs @ [v])))"
  using assms by (induction m) (auto split: if_splits)

lemma size_map_ok_append:
  assumes "size_map_ok stat m" and "stat p = Some st" and "st_size st > 0"
  shows "size_map_ok stat (dict_append (st_size st) p m)"
  unfolding size_map_ok_def
proof (intro ballI, clarify)
  fix sz paths assume "(sz, paths) \<in> set (dict_append (st_size st) p m)"
  from dict_append_cases [OF this] assms
  show "sz > 0 \<and> (\<forall>q \<in> set paths. \<exists>st'. stat q = Some st' \<and> st_size st' = sz)"
    by (fastforce simp: size_map_ok_def)
qed

lemma hash_map_ok_append:
  assumes "hash_map_ok stat hash_file m" and "df_hash f = Some h"
    and "hash_file (df_path f) = Some h"
    and "stat (df_path f) = Some st" and "st_size st = df_size f" and "df_size f > 0"
  shows "hash_map_ok stat hash_file (dict_append h f m)"
  unfolding hash_map_ok_def
proof (intro ballI, clarify)
  fix h' files g assume "(h', files) \<in> set (dict_append h f m)" and g: "g \<in> set files"
  from dict_append_cases [OF this(1)]
  consider "(h', files) \<in> set m" | "h' = h" "files = [f]"
    | vs where "h' = h" "(h, vs) \<in> set m" "files = vs @ [f]"
    by blast
  then show "df_hash g = Some h' \<and> hash_file (df_path g) = Some h'
      \<and> (\<exists>st. stat (df_path g) = Some st \<and> st_size st = df_size g) \<and> df_size g > 0"
  proof cases
    case 1
    with assms(1) g show ?thesis by (fastforce simp: hash_map_ok_def)
  next
    case 2
    with assms g show ?thesis by auto
  next
    case 3
    show ?thesis
    proof (cases "g = f")
      case True
      with assms 3 show ?thesis by auto
    next
      case False
      with g 3 have "g \<in> set vs" by auto
      with assms(1) 3 show ?thesis by (fastforce simp: hash_map_ok_def)
    qed
  qed
qed

lemma sc_read_fields [simp]:
  "sc_size_map (sc_read s) = sc_size_map s"
  "sc_hash_map (sc_read s) = sc_hash_map s"
  "sc_file_map (sc_read s) = sc_file_map s"
  "sc_events (sc_read s) = sc_events s"
  "sc_hash_calls (sc_read s) = sc_hash_calls s"
  "sc_stat_calls (sc_read s) = sc_stat_calls s"
  "sc_reads (sc_read s) = sc_reads s + 1"
  "sc_returned (sc_read s) = sc_returned s"
  by (simp_all add: sc_read_def)

lemma sc_emit_fields [simp]:
  "sc_size_map (sc_emit e s) = sc_size_map s"
  "sc_hash_map (sc_emit e s) = sc_hash_map s"
  "sc_file_map (sc_emit e s) = sc_file_map s"
  "sc_events (sc_emit e s) = sc_events s @ [e]"
  "sc_hash_calls (sc_emit e s) = sc_hash_calls s"
  "sc_stat_calls (sc_emit e s) = sc_stat_calls s"
  "sc_reads (sc_emit e s) = sc_reads s"
  "sc_returned (sc_emit e s) = sc_returned s"
  by (simp_all add: sc_emit_def)

lemma count_scanned_fields [simp]:
  "sc_size_map (count_scanned s) = sc_size_map s"
  "sc_hash_map (count_scanned s) = sc_hash_map s"
  "sc_file_map (count_scanned s) = sc_file_map s"
  "sc_hash_calls (count_scanned s) = sc_hash_calls s"
  "sc_stat_calls (count_scanned s) = sc_stat_calls s"
  "sc_reads (count_scanned s) = sc_reads s"
  "sc_returned (count_scanned s) = sc_returned s"
  by (simp_all add: count_scanned_def Let_def)

lemma no_complete_count_scanned [simp]:
  "no_complete (sc_events (count_scanned s)) = no_complete (sc_events s)"
  by (auto simp: count_scanned_def Let_def no_complete_def)

lemma deep_inv1_read [simp]: "deep_inv1 stat (sc_read s) = deep_inv1 stat s"
  by (simp add: deep_inv1_def)

lemma deep_inv1_returned [simp]: "deep_inv1 stat (s\<lparr>sc_returned := b\<rparr>) = deep_inv1 stat s"
  by (simp add: deep_inv1_def)

lemma deep_inv1_visit:
  assumes "deep_inv1 stat s"
  shows "deep_inv1 stat (deep_visit stat r f s)"
proof (cases "stat (os_path_join r f)")
  case None
  then show ?thesis using assms by (simp add: deep_visit_def Let_def deep_inv1_def)
next
  case (Some st)
  then show ?thesis
    using assms size_map_ok_append [of stat "sc_size_map s" "os_path_join r f" st]
    by (simp add: deep_visit_def Let_def deep_inv1_def)
qed

lemma deep_inv1_files:
  "deep_inv1 stat s \<Longrightarrow> deep_inv1 stat (deep_files k stat r fs s)"
  by (induction fs arbitrary: s) (simp_all add: deep_inv1_visit)

lemma deep_inv1_dirs:
  "deep_inv1 stat s \<Longrightarrow> deep_inv1 stat (deep_dirs k stat ds s)"
  by (induction k stat ds s rule: deep_dirs.induct) (simp_all add: deep_inv1_files Let_def)

lemma deep_inv2_read [simp]:
  "deep_inv2 stat hash_file m (sc_read s) = deep_inv2 stat hash_file m s"
  by (simp add: deep_inv2_def)

lemma deep_inv2_returned [simp]:
  "deep_inv2 stat hash_file m (s\<lparr>sc_returned := b\<rparr>) = deep_inv2 stat hash_file m s"
  by (simp add: deep_inv2_def)

lemma files_to_hash_bucket:
  assumes "p \<in> set (files_to_hash m)"
  shows "\<exists>(sz, paths) \<in> set m. p \<in> set paths \<and> length paths \<ge> 2"
  using assms by (auto simp: files_to_hash_def)

lemma deep_inv2_step:
  assumes inv: "deep_inv2 stat hash_file m s" and ok: "size_map_ok stat m"
    and p: "p \<in> set (files_to_hash m)"
  shows "deep_inv2 stat hash_file m (hash_step n stat hash_file p s)"
proof -
  obtain sz paths where b: "(sz, paths) \<in> set m" "p \<in> set paths"
    using files_to_hash_bucket [OF p] by blast
  with ok obtain st where st: "stat p = Some st" "st_size st > 0"
    by (fastforce simp: size_map_ok_def)
  show ?thesis
  proof (cases "hash_file p")
    case None
    then show ?thesis using inv p by (simp add: hash_step_def deep_inv2_def)
  next
    case (Some h)
    let ?f = "\<lparr>df_name = os_path_basename p, df_path = p, df_size = st_size st,
               df_modified = st_mtime st, df_hash = Some h\<rparr>"
    have "hash_map_ok stat hash_file (dict_append h ?f (sc_hash_map s))"
      using inv st Some by (intro hash_map_ok_append [where st = st]) (simp_all add: deep_inv2_def)
    then show ?thesis
      using inv p Some st by (simp add: hash_step_def deep_inv2_def Let_def no_complete_def)
  qed
qed

lemma deep_inv2_loop:
  assumes "deep_inv2 stat hash_file m s" and "size_map_ok stat m"
    and "set ps \<subseteq> set (files_to_hash m)"
  shows "deep_inv2 stat hash_file m (hash_loop k n stat hash_file ps s)"
  using assms by (induction ps arbitrary: s) (simp_all add: deep_inv2_step)

lemma scanner_start_inv1: "deep_inv1 stat (scanner_start ProgressScanningBySize)"
  by (simp add: deep_inv1_def scanner_start_def size_map_ok_def no_complete_def)

text \<open>
  Claim C6. In a deep scan over a file system that does not change during the scan
  (\<open>os.stat\<close> and \<open>hash_file\<close> are functions of the path), every group of an emitted
  \<open>scan_complete\<close> has at least two members; the key of the group is the digest that
  \<open>hash_file\<close> computes for the file of each member (so all members of a group have the
  same content digest), each member carries that digest and the positive size that
  \<open>os.stat\<close> gives for its file; and every path handed to \<open>hash_file\<close> lies in a bucket of
  \<open>size_map\<close> with at least two paths, all of that (positive) size.
\<close>

theorem deep_scan_groups:
  "(\<forall>groups. ScanComplete groups \<in> set (sc_events (deep_run k stat hash_file root_folder tree)) \<longrightarrow>
      (\<forall>(h, files) \<in> set groups.
          length files \<ge> 2
          \<and> (\<forall>f \<in> set files.
                hash_file (df_path f) = Some h \<and> df_hash f = Some h
                \<and> (\<exists>st. stat (df_path f) = Some st \<and> st_size st = df_size f \<and> st_size st > 0))))
   \<and> (\<forall>p \<in> set (sc_hash_calls (deep_run k stat hash_file root_folder tree)).
         \<exists>(sz, paths) \<in> set (sc_size_map (deep_run k stat hash_file root_folder tree)).
            p \<in> set paths \<and> length paths \<ge> 2 \<and> sz > 0
            \<and> (\<forall>q \<in> set paths. \<exists>st. stat q = Some st \<and> st_size st = sz))"
proof -
  define s1 where "s1 = deep_dirs k stat (os_walk scanner_keeps root_folder tree)
                 (scanner_start ProgressScanningBySize)"
  define s2 where "s2 = hash_loop k (length (files_to_hash (sc_size_map s1))) stat hash_file
                 (files_to_hash (sc_size_map s1))
                 (sc_emit (ProgressHashing (length (files_to_hash (sc_size_map s1)))) s1)"
  define dups where "dups = filter (\<lambda>(hash_val, files). length files > 1) (sc_hash_map s2)"
  let ?r = "deep_run k stat hash_file root_folder tree"
  have i1: "deep_inv1 stat s1"
    unfolding s1_def by (rule deep_inv1_dirs) (rule scanner_start_inv1)
  have "deep_inv2 stat hash_file (sc_size_map s1)
      (sc_emit (ProgressHashing (length (files_to_hash (sc_size_map s1)))) s1)"
    using i1 by (simp add: deep_inv1_def deep_inv2_def hash_map_ok_def no_complete_def)
  then have i2: "deep_inv2 stat hash_file (sc_size_map s1) s2"
    unfolding s2_def using i1 by (intro deep_inv2_loop) (simp_all add: deep_inv1_def)
  have cases: "?r = s1 \<or> ?r = s2 \<or> ?r = sc_read s2 \<or> ?r = sc_emit (ScanComplete dups) (sc_read s2)"
    unfolding deep_run_def Let_def s1_def [symmetric] s2_def [symmetric] dups_def [symmetric]
    by simp
  have ok: "size_map_ok stat (sc_size_map s1)" using i1 by (simp add: deep_inv1_def)
  have m2: "sc_size_map s2 = sc_size_map s1" using i2 by (simp add: deep_inv2_def)
  have nc1: "no_complete (sc_events s1)" using i1 by (simp add: deep_inv1_def)
  have nc2: "no_complete (sc_events s2)" using i2 by (simp add: deep_inv2_def)
  have dups_ok: "length files \<ge> 2
          \<and> (\<forall>f \<in> set files.
                hash_file (df_path f) = Some h \<and> df_hash f = Some h
                \<and> (\<exists>st. stat (df_path f) = Some st \<and> st_size st = df_size f \<and> st_size st > 0))"
    if m: "(h, files) \<in> set dups" for h files
  proof -
    from m have mem: "(h, files) \<in> set (sc_hash_map s2)" and len: "length files \<ge> 2"
      by (auto simp: dups_def)
    have "hash_map_ok stat hash_file (sc_hash_map s2)"
      using i2 by (simp add: deep_inv2_def)
    with mem have "\<forall>f \<in> set files.
        df_hash f = Some h \<and> hash_file (df_path f) = Some h
        \<and> (\<exists>st. stat (df_path f) = Some st \<and> st_size st = df_size f) \<and> df_size f > 0"
      unfolding hash_map_ok_def by blast
    then have "\<forall>f \<in> set files.
                hash_file (df_path f) = Some h \<and> df_hash f = Some h
                \<and> (\<exists>st. stat (df_path f) = Some st \<and> st_size st = df_size f \<and> st_size st > 0)"
      by fastforce
    with len show ?thesis by blast
  qed
  have groups: "\<forall>(h, files) \<in> set groups.
          length files \<ge> 2
          \<and> (\<forall>f \<in> set files.
                hash_file (df_path f) = Some h \<and> df_hash f = Some h
                \<and> (\<exists>st. stat (df_path f) = Some st \<and> st_size st = df_size f \<and> st_size st > 0))"
    if g: "ScanComplete groups \<in> set (sc_events ?r)" for groups
  proof -
    have "groups = dups"
      using cases g nc1 nc2 by (auto simp: no_complete_def)
    then show ?thesis using dups_ok by blast
  qed
  have map_r: "sc_size_map ?r = sc_size_map s1"
    using cases m2 by auto
  have calls: "set (sc_hash_calls ?r) \<subseteq> set (files_to_hash (sc_size_map s1))"
    using cases i1 i2 by (auto simp: deep_inv1_def deep_inv2_def)
  have buckets: "\<exists>(sz, paths) \<in> set (sc_size_map ?r).
            p \<in> set paths \<and> length paths \<ge> 2 \<and> sz > 0
            \<and> (\<forall>q \<in> set paths. \<exists>st. stat q = Some st \<and> st_size st = sz)"
    if p: "p \<in> set (sc_hash_calls ?r)" for p
  proof -
    from p calls have "p \<in> set (files_to_hash (sc_size_map s1))" by blast
    from files_to_hash_bucket [OF this]
    obtain sz paths where b: "(sz, paths) \<in> set (sc_size_map s1)" "p \<in> set paths" "length paths \<ge> 2"
      by blast
    with ok have "sz > 0 \<and> (\<forall>q \<in> set paths. \<exists>st. stat q = Some st \<and> st_size st = sz)"
      by (fastforce simp: size_map_ok_def)
    with b show ?thesis unfolding map_r by blast
  qed
  show ?thesis
    using groups buckets by blast
qed

theorem deep_scan_groups_witness:
  "sc_events (deep_run None deep_example_stat deep_example_hash ''/'' deep_example_tree) =
     [ProgressScanningBySize, ProgressHashing 3,
      ScanComplete [(''h1'', [hashed_file ''/a.txt'' ''h1'', hashed_file ''/b.txt'' ''h1''])]]
   \<and> sc_hash_calls (deep_run None deep_example_stat deep_example_hash ''/'' deep_example_tree) =
     [''/a.txt'', ''/b.txt'', ''/c.txt'']
   \<and> sc_size_map (deep_run None deep_example_stat deep_example_hash ''/'' deep_example_tree) =
     [(4, [''/a.txt'', ''/b.txt'', ''/c.txt'']), (7, [''/d.txt''])]
   \<and> 2 \<le> length [hashed_file ''/a.txt'' ''h1'', hashed_file ''/b.txt'' ''h1'']
   \<and> deep_example_hash ''/a.txt'' = Some ''h1''
   \<and> deep_example_hash ''/b.txt'' = Some ''h1''
   \<and> 0 < df_size (hashed_file ''/a.txt'' ''h1'')"
proof -
  let ?r = "deep_run None deep_example_stat deep_example_hash ''/'' deep_example_tree"
  let ?G = "[(''h1'', [hashed_file ''/a.txt'' ''h1'', hashed_file ''/b.txt'' ''h1''])]"
  have ev: "sc_events ?r = [ProgressScanningBySize, ProgressHashing 3, ScanComplete ?G]"
    by code_simp
  have hc: "sc_hash_calls ?r = [''/a.txt'', ''/b.txt'', ''/c.txt'']"
    by code_simp
  have sm: "sc_size_map ?r = [(4, [''/a.txt'', ''/b.txt'', ''/c.txt'']), (7, [''/d.txt''])]"
    by code_simp
  have "ScanComplete ?G \<in> set (sc_events ?r)"
    by (simp add: ev)
  with deep_scan_groups [of None deep_example_stat deep_example_hash "''/''" deep_example_tree]
  have "\<forall>(h, files) \<in> set ?G.
          length files \<ge> 2
          \<and> (\<forall>f \<in> set files.
                deep_example_hash (df_path f) = Some h \<and> df_hash f = Some h
                \<and> (\<exists>st. deep_example_stat (df_path f) = Some st \<and> st_size st = df_size f
                        \<and> st_size st > 0))"
    by blast
  then have "2 \<le> length [hashed_file ''/a.txt'' ''h1'', hashed_file ''/b.txt'' ''h1'']
      \<and> deep_example_hash ''/a.txt'' = Some ''h1''
      \<and> deep_example_hash ''/b.txt'' = Some ''h1''
      \<and> 0 < df_size (hashed_file ''/a.txt'' ''h1'')"
    by (auto simp: hashed_file_def)
  with ev hc sm show ?thesis by blast
qed

section \<open>Cancellation of the scans\<close>

lemma should_stop_Some [simp]: "should_stop (Some k) t \<longleftrightarrow> k \<le> t"
  by (simp add: should_stop_def)

lemma visits_append [simp]: "visits (xs @ ys) = visits xs @ visits ys"
  by (induction xs rule: visits.induct) simp_all

lemma completions_read [simp]: "completions (read_flag s) = completions s"
  by (simp add: completions_def)

lemma full_visit_completions [simp]: "completions (full_visit stat r f s) = completions s"
  by (auto simp: completions_def full_visit_def Let_def emit_def split: option.splits)

lemma full_visit_calls [simp]:
  "ix_stat_calls (full_visit stat r f s) = ix_stat_calls s @ [os_path_join r f]"
  "ix_reads (full_visit stat r f s) = ix_reads s"
  by (auto simp: full_visit_def Let_def emit_def split: option.splits)

lemma ix_follows_refl: "ix_follows k [] s s"
  by (simp add: ix_follows_def)

lemma ix_follows_trans:
  assumes "ix_follows k C1 s s1" and "ix_follows k C2 s1 s2"
  shows "ix_follows k (C1 @ C2) s s2"
proof (cases "ix_reads s + length C1 \<le> k")
  case True
  with assms(1) have r1: "ix_reads s1 = ix_reads s + length C1"
    by (simp add: ix_follows_def)
  have t: "take (k - ix_reads s) (C1 @ C2) = take (k - ix_reads s) C1 @ take (k - ix_reads s1) C2"
    using True by (simp add: r1)
  show ?thesis
    using assms True unfolding ix_follows_def t r1 by auto
next
  case False
  with assms(1) have r1: "k < ix_reads s1" by (simp add: ix_follows_def)
  have t: "take (k - ix_reads s) (C1 @ C2) = take (k - ix_reads s) C1"
    using False by simp
  have t2: "take (k - ix_reads s1) C2 = []" using r1 by simp
  show ?thesis
    using assms False r1 unfolding ix_follows_def t by (auto simp: t2)
qed

lemma ix_follows_stopped:
  "k \<le> ix_reads s \<Longrightarrow> C \<noteq> [] \<Longrightarrow> ix_follows k C s (read_flag s)"
  by (cases C) (simp_all add: ix_follows_def)

lemma ix_follows_enter:
  "ix_reads s < k \<Longrightarrow> ix_follows k [Enter] s (read_flag s)"
  by (simp add: ix_follows_def)

lemma ix_follows_enter_drive:
  "ix_reads s < k \<Longrightarrow> ix_follows k [Enter] s (emit (ProgressIndexing d) (read_flag s))"
  by (simp add: ix_follows_def completions_def)

lemma ix_follows_visit:
  "ix_reads s < k \<Longrightarrow>
   ix_follows k [Visit (os_path_join r f)] s (full_visit stat r f (read_flag s))"
  by (simp add: ix_follows_def)

lemma full_files_follows:
  "ix_follows k (file_checks r fs) s (full_files (Some k) stat r fs s)"
proof (induction fs arbitrary: s)
  case Nil
  show ?case by (simp add: file_checks_def ix_follows_refl)
next
  case (Cons f fs)
  show ?case
  proof (cases "k \<le> ix_reads s")
    case True
    then show ?thesis by (simp add: ix_follows_stopped file_checks_def)
  next
    case False
    then have lt: "ix_reads s < k" by simp
    have "ix_follows k ([Visit (os_path_join r f)] @ file_checks r fs) s
        (full_files (Some k) stat r fs (full_visit stat r f (read_flag s)))"
      by (rule ix_follows_trans [OF ix_follows_visit [OF lt] Cons.IH])
    then show ?thesis using False by (simp add: file_checks_def)
  qed
qed

lemma full_dirs_follows:
  "ix_follows k (dir_checks ds) s (full_dirs (Some k) stat ds s)"
proof (induction ds arbitrary: s)
  case Nil
  show ?case by (simp add: dir_checks_def ix_follows_refl)
next
  case (Cons d ds)
  obtain r fs where d: "d = (r, fs)" by (cases d)
  have c: "dir_checks (d # ds) = [Enter] @ file_checks r fs @ dir_checks ds"
    by (simp add: dir_checks_def d)
  show ?case
  proof (cases "k \<le> ix_reads s")
    case True
    then show ?thesis unfolding c by (simp add: d ix_follows_stopped)
  next
    case False
    then have lt: "ix_reads s < k" by simp
    have "ix_follows k ([Enter] @ file_checks r fs @ dir_checks ds) s
        (full_dirs (Some k) stat ds (full_files (Some k) stat r fs (read_flag s)))"
      by (rule ix_follows_trans [OF ix_follows_enter [OF lt]
            ix_follows_trans [OF full_files_follows Cons.IH]])
    then show ?thesis unfolding c using False by (simp add: d)
  qed
qed

lemma full_drives_follows:
  "ix_follows k (full_checks ds) s (full_drives (Some k) stat ds s)"
proof (induction ds arbitrary: s)
  case Nil
  show ?case by (simp add: full_checks_def ix_follows_refl)
next
  case (Cons d ds)
  obtain drive tree where d: "d = (drive, tree)" by (cases d)
  have c: "full_checks (d # ds) =
      [Enter] @ dir_checks (os_walk indexer_keeps drive tree) @ full_checks ds"
    by (simp add: full_checks_def d)
  show ?case
  proof (cases "k \<le> ix_reads s")
    case True
    then show ?thesis unfolding c by (simp add: d ix_follows_stopped)
  next
    case False
    then have lt: "ix_reads s < k" by simp
    have "ix_follows k ([Enter] @ dir_checks (os_walk indexer_keeps drive tree) @ full_checks ds) s
        (full_drives (Some k) stat ds
           (full_dirs (Some k) stat (os_walk indexer_keeps drive tree)
              (emit (ProgressIndexing drive) (read_flag s))))"
      by (rule ix_follows_trans [OF ix_follows_enter_drive [OF lt]
            ix_follows_trans [OF full_dirs_follows Cons.IH]])
    then show ?thesis unfolding c using False by (simp add: d)
  qed
qed

lemma full_index_follows:
  "ix_stat_calls (full_index (Some k) stat drives s)
     = ix_stat_calls s @ visits (take (k - ix_reads s) (full_checks drives))
   \<and> (k \<le> ix_reads s + length (full_checks drives) \<longrightarrow>
        completions (full_index (Some k) stat drives s) = completions s)"
proof -
  define s0 where "s0 = s\<lparr>ix_total_files := 0, ix_batch := []\<rparr>"
  define s1 where "s1 = full_drives (Some k) stat drives s0"
  define s2 where "s2 = (if ix_batch s1 \<noteq> []
                then s1\<lparr>ix_db := save_file_index (ix_db s1) (ix_batch s1)\<rparr> else s1)"
  have r: "full_index (Some k) stat drives s =
      (if \<not> k \<le> ix_reads s2 then emit (IndexingComplete (ix_total_files s2)) (read_flag s2)
       else read_flag s2)"
    by (simp add: full_index_def Let_def s0_def s1_def s2_def)
  have f: "ix_follows k (full_checks drives) s0 s1"
    unfolding s1_def by (rule full_drives_follows)
  have s0: "ix_stat_calls s0 = ix_stat_calls s" "ix_reads s0 = ix_reads s"
    "completions s0 = completions s"
    by (simp_all add: s0_def completions_def)
  have s2: "ix_stat_calls s2 = ix_stat_calls s1" "ix_reads s2 = ix_reads s1"
    "completions s2 = completions s1"
    by (simp_all add: s2_def completions_def)
  have A: "ix_stat_calls (full_index (Some k) stat drives s)
     = ix_stat_calls s @ visits (take (k - ix_reads s) (full_checks drives))"
    using f by (simp add: r s2 s0 ix_follows_def)
  have B: "completions (full_index (Some k) stat drives s) = completions s"
    if "k \<le> ix_reads s + length (full_checks drives)"
  proof -
    have "k \<le> ix_reads s1"
    proof (cases "ix_reads s + length (full_checks drives) \<le> k")
      case True
      with f have "ix_reads s1 = ix_reads s + length (full_checks drives)"
        by (simp add: ix_follows_def s0)
      with that True show ?thesis by simp
    next
      case False
      with f have "k < ix_reads s1" by (simp add: ix_follows_def s0)
      then show ?thesis by simp
    qed
    then have "full_index (Some k) stat drives s = read_flag s2"
      by (simp add: r s2)
    then show ?thesis
      using f by (simp add: s2 s0 ix_follows_def)
  qed
  from A B show ?thesis by blast
qed


lemma sc_follows_refl: "\<not> sc_returned s \<Longrightarrow> sc_reads s \<le> k \<Longrightarrow> sc_follows k [] s s"
  by (simp add: sc_follows_def)

lemma sc_follows_trans:
  assumes "sc_follows k C1 s s1"
    and "\<not> sc_returned s1 \<Longrightarrow> sc_reads s1 \<le> k \<Longrightarrow> sc_follows k C2 s1 s2"
    and "sc_returned s1 \<Longrightarrow> s2 = s1"
  shows "sc_follows k (C1 @ C2) s s2"
proof (cases "sc_reads s + length C1 \<le> k")
  case True
  with assms(1) have r1: "sc_reads s1 = sc_reads s + length C1" "\<not> sc_returned s1"
    by (simp_all add: sc_follows_def)
  have le: "sc_reads s1 \<le> k" using True r1 by simp
  have t: "take (k - sc_reads s) (C1 @ C2) = take (k - sc_reads s) C1 @ take (k - sc_reads s1) C2"
    using True by (simp add: r1)
  show ?thesis
    using assms(1) assms(2) [OF r1(2) le] True unfolding sc_follows_def t r1 by auto
next
  case False
  with assms(1) have r1: "sc_returned s1" by (simp add: sc_follows_def)
  have t: "take (k - sc_reads s) (C1 @ C2) = take (k - sc_reads s) C1"
    using False by simp
  show ?thesis
    using assms(1) assms(3) [OF r1] False r1 unfolding sc_follows_def t by auto
qed

lemma sc_follows_stopped:
  "k \<le> sc_reads s \<Longrightarrow> C \<noteq> [] \<Longrightarrow> sc_follows k C s ((sc_read s)\<lparr>sc_returned := True\<rparr>)"
  by (cases C) (simp_all add: sc_follows_def)

lemma sc_follows_enter:
  "sc_reads s < k \<Longrightarrow> \<not> sc_returned s \<Longrightarrow> sc_follows k [Enter] s (sc_read s)"
  by (simp add: sc_follows_def sc_read_def)

lemma fast_visit_fields [simp]:
  "sc_stat_calls (fast_visit win32 usf stat r f s) = sc_stat_calls s @ [os_path_join r f]"
  "sc_reads (fast_visit win32 usf stat r f s) = sc_reads s"
  "sc_returned (fast_visit win32 usf stat r f s) = sc_returned s"
  "sc_hash_calls (fast_visit win32 usf stat r f s) = sc_hash_calls s"
  "no_complete (sc_events (fast_visit win32 usf stat r f s)) = no_complete (sc_events s)"
  by (simp_all add: fast_visit_def Let_def split: option.splits)

lemma deep_visit_fields [simp]:
  "sc_stat_calls (deep_visit stat r f s) = sc_stat_calls s @ [os_path_join r f]"
  "sc_reads (deep_visit stat r f s) = sc_reads s"
  "sc_returned (deep_visit stat r f s) = sc_returned s"
  "sc_hash_calls (deep_visit stat r f s) = sc_hash_calls s"
  "no_complete (sc_events (deep_visit stat r f s)) = no_complete (sc_events s)"
  by (simp_all add: deep_visit_def Let_def split: option.splits)

lemma sc_follows_fast_visit:
  "sc_reads s < k \<Longrightarrow> \<not> sc_returned s \<Longrightarrow>
   sc_follows k [Visit (os_path_join r f)] s (fast_visit win32 usf stat r f (sc_read s))"
  by (simp add: sc_follows_def)

lemma sc_follows_deep_visit:
  "sc_reads s < k \<Longrightarrow> \<not> sc_returned s \<Longrightarrow>
   sc_follows k [Visit (os_path_join r f)] s (deep_visit stat r f (sc_read s))"
  by (simp add: sc_follows_def)

lemma fast_files_follows:
  "\<not> sc_returned s \<Longrightarrow> sc_reads s \<le> k \<Longrightarrow>
   sc_follows k (file_checks r fs) s (fast_files (Some k) win32 usf stat r fs s)"
proof (induction fs arbitrary: s)
  case Nil
  then show ?case by (simp add: file_checks_def sc_follows_refl)
next
  case (Cons f fs)
  show ?case
  proof (cases "k \<le> sc_reads s")
    case True
    then show ?thesis by (simp add: sc_follows_stopped file_checks_def)
  next
    case False
    then have lt: "sc_reads s < k" by simp
    have "sc_follows k ([Visit (os_path_join r f)] @ file_checks r fs) s
        (fast_files (Some k) win32 usf stat r fs (fast_visit win32 usf stat r f (sc_read s)))"
    proof (rule sc_follows_trans [OF sc_follows_fast_visit [OF lt Cons.prems(1)]])
      assume "\<not> sc_returned (fast_visit win32 usf stat r f (sc_read s))"
        and "sc_reads (fast_visit win32 usf stat r f (sc_read s)) \<le> k"
      then show "sc_follows k (file_checks r fs) (fast_visit win32 usf stat r f (sc_read s))
          (fast_files (Some k) win32 usf stat r fs (fast_visit win32 usf stat r f (sc_read s)))"
        by (rule Cons.IH)
    next
      assume "sc_returned (fast_visit win32 usf stat r f (sc_read s))"
      with Cons.prems show "fast_files (Some k) win32 usf stat r fs (fast_visit win32 usf stat r f (sc_read s))
          = fast_visit win32 usf stat r f (sc_read s)"
        by (simp add: sc_read_def)
    qed
    then show ?thesis using False by (simp add: file_checks_def)
  qed
qed

lemma fast_dirs_follows:
  "\<not> sc_returned s \<Longrightarrow> sc_reads s \<le> k \<Longrightarrow>
   sc_follows k (dir_checks ds) s (fast_dirs (Some k) win32 usf stat ds s)"
proof (induction ds arbitrary: s)
  case Nil
  then show ?case by (simp add: dir_checks_def sc_follows_refl)
next
  case (Cons d ds)
  obtain r fs where d: "d = (r, fs)" by (cases d)
  have c: "dir_checks (d # ds) = [Enter] @ file_checks r fs @ dir_checks ds"
    by (simp add: dir_checks_def d)
  show ?case
  proof (cases "k \<le> sc_reads s")
    case True
    then show ?thesis unfolding c by (simp add: d sc_follows_stopped)
  next
    case False
    then have lt: "sc_reads s < k" by simp
    define s1 where "s1 = fast_files (Some k) win32 usf stat r fs (sc_read s)"
    define s2 where "s2 = (if sc_returned s1 then s1 else fast_dirs (Some k) win32 usf stat ds s1)"
    have nr: "\<not> sc_returned (sc_read s)" using Cons.prems by (simp add: sc_read_def)
    have f2: "sc_follows k (file_checks r fs @ dir_checks ds) (sc_read s) s2"
      if le: "sc_reads (sc_read s) \<le> k"
    proof (rule sc_follows_trans [of k "file_checks r fs" "sc_read s" s1])
      show "sc_follows k (file_checks r fs) (sc_read s) s1"
        unfolding s1_def by (rule fast_files_follows [OF nr le])
    next
      assume "\<not> sc_returned s1" and "sc_reads s1 \<le> k"
      then show "sc_follows k (dir_checks ds) s1 s2"
        by (simp add: s2_def Cons.IH)
    next
      assume "sc_returned s1" then show "s2 = s1" by (simp add: s2_def)
    qed
    have "sc_follows k ([Enter] @ file_checks r fs @ dir_checks ds) s s2"
    proof (rule sc_follows_trans [OF sc_follows_enter [OF lt Cons.prems(1)]])
      assume "sc_reads (sc_read s) \<le> k"
      then show "sc_follows k (file_checks r fs @ dir_checks ds) (sc_read s) s2" by (rule f2)
    next
      assume "sc_returned (sc_read s)" with nr show "s2 = sc_read s" by simp
    qed
    moreover have "fast_dirs (Some k) win32 usf stat (d # ds) s = s2"
      using False by (simp add: d s1_def s2_def Let_def)
    ultimately show ?thesis unfolding c by simp
  qed
qed

lemma deep_files_follows:
  "\<not> sc_returned s \<Longrightarrow> sc_reads s \<le> k \<Longrightarrow>
   sc_follows k (file_checks r fs) s (deep_files (Some k) stat r fs s)"
proof (induction fs arbitrary: s)
  case Nil
  then show ?case by (simp add: file_checks_def sc_follows_refl)
next
  case (Cons f fs)
  show ?case
  proof (cases "k \<le> sc_reads s")
    case True
    then show ?thesis by (simp add: sc_follows_stopped file_checks_def)
  next
    case False
    then have lt: "sc_reads s < k" by simp
    have "sc_follows k ([Visit (os_path_join r f)] @ file_checks r fs) s
        (deep_files (Some k) stat r fs (deep_visit stat r f (sc_read s)))"
    proof (rule sc_follows_trans [OF sc_follows_deep_visit [OF lt Cons.prems(1)]])
      assume "\<not> sc_returned (deep_visit stat r f (sc_read s))"
        and "sc_reads (deep_visit stat r f (sc_read s)) \<le> k"
      then show "sc_follows k (file_checks r fs) (deep_visit stat r f (sc_read s))
          (deep_files (Some k) stat r fs (deep_visit stat r f (sc_read s)))"
        by (rule Cons.IH)
    next
      assume "sc_returned (deep_visit stat r f (sc_read s))"
      with Cons.prems show "deep_files (Some k) stat r fs (deep_visit stat r f (sc_read s))
          = deep_visit stat r f (sc_read s)"
        by (simp add: sc_read_def)
    qed
    then show ?thesis using False by (simp add: file_checks_def)
  qed
qed

lemma deep_dirs_follows:
  "\<not> sc_returned s \<Longrightarrow> sc_reads s \<le> k \<Longrightarrow>
   sc_follows k (dir_checks ds) s (deep_dirs (Some k) stat ds s)"
proof (induction ds arbitrary: s)
  case Nil
  then show ?case by (simp add: dir_checks_def sc_follows_refl)
next
  case (Cons d ds)
  obtain r fs where d: "d = (r, fs)" by (cases d)
  have c: "dir_checks (d # ds) = [Enter] @ file_checks r fs @ dir_checks ds"
    by (simp add: dir_checks_def d)
  show ?case
  proof (cases "k \<le> sc_reads s")
    case True
    then show ?thesis unfolding c by (simp add: d sc_follows_stopped)
  next
    case False
    then have lt: "sc_reads s < k" by simp
    define s1 where "s1 = deep_files (Some k) stat r fs (sc_read s)"
    define s2 where "s2 = (if sc_returned s1 then s1 else deep_dirs (Some k) stat ds s1)"
    have nr: "\<not> sc_returned (sc_read s)" using Cons.prems by (simp add: sc_read_def)
    have f2: "sc_follows k (file_checks r fs @ dir_checks ds) (sc_read s) s2"
      if le: "sc_reads (sc_read s) \<le> k"
    proof (rule sc_follows_trans [of k "file_checks r fs" "sc_read s" s1])
      show "sc_follows k (file_checks r fs) (sc_read s) s1"
        unfolding s1_def by (rule deep_files_follows [OF nr le])
    next
      assume "\<not> sc_returned s1" and "sc_reads s1 \<le> k"
      then show "sc_follows k (dir_checks ds) s1 s2"
        by (simp add: s2_def Cons.IH)
    next
      assume "sc_returned s1" then show "s2 = s1" by (simp add: s2_def)
    qed
    have "sc_follows k ([Enter] @ file_checks r fs @ dir_checks ds) s s2"
    proof (rule sc_follows_trans [OF sc_follows_enter [OF lt Cons.prems(1)]])
      assume "sc_reads (sc_read s) \<le> k"
      then show "sc_follows k (file_checks r fs @ dir_checks ds) (sc_read s) s2" by (rule f2)
    next
      assume "sc_returned (sc_read s)" with nr show "s2 = sc_read s" by simp
    qed
    moreover have "deep_dirs (Some k) stat (d # ds) s = s2"
      using False by (simp add: d s1_def s2_def Let_def)
    ultimately show ?thesis unfolding c by simp
  qed
qed

lemma deep_files_None_reads [simp]:
  "sc_reads (deep_files None stat r fs s) = sc_reads s + length fs"
  by (induction fs arbitrary: s) (simp_all add: sc_read_def)

lemma deep_files_uncancelled:
  "sc_reads s + length fs \<le> k \<Longrightarrow> deep_files (Some k) stat r fs s = deep_files None stat r fs s"
  by (induction fs arbitrary: s) (simp_all add: sc_read_def)

lemma length_dir_checks_Cons:
  "length (dir_checks ((r, fs) # ds)) = Suc (length fs + length (dir_checks ds))"
  by (simp add: dir_checks_def file_checks_def)

lemma deep_dirs_uncancelled:
  "sc_reads s + length (dir_checks ds) \<le> k \<Longrightarrow> deep_dirs (Some k) stat ds s = deep_dirs None stat ds s"
proof (induction ds arbitrary: s)
  case Nil
  show ?case by simp
next
  case (Cons d ds)
  obtain r fs where d: "d = (r, fs)" by (cases d)
  from Cons.prems have le: "Suc (sc_reads s + length fs + length (dir_checks ds)) \<le> k"
    by (simp add: d length_dir_checks_Cons)
  have e: "deep_files (Some k) stat r fs (sc_read s) = deep_files None stat r fs (sc_read s)"
    using le by (intro deep_files_uncancelled) (simp add: sc_read_def)
  have "deep_dirs (Some k) stat ds (deep_files None stat r fs (sc_read s))
      = deep_dirs None stat ds (deep_files None stat r fs (sc_read s))"
    using le by (intro Cons.IH) (simp add: sc_read_def)
  then show ?case using le by (simp add: d e Let_def)
qed


lemma hash_step_fields [simp]:
  "sc_stat_calls (hash_step n stat hash_file p s)
     = sc_stat_calls s @ filter (\<lambda>p. hash_file p \<noteq> None) [p]"
  "sc_hash_calls (hash_step n stat hash_file p s) = sc_hash_calls s @ [p]"
  "sc_reads (hash_step n stat hash_file p s) = sc_reads s"
  "sc_returned (hash_step n stat hash_file p s) = sc_returned s"
  "no_complete (sc_events (hash_step n stat hash_file p s)) = no_complete (sc_events s)"
  by (auto simp: hash_step_def Let_def no_complete_def split: option.splits)

lemma hash_loop_follows:
  "\<not> sc_returned s \<Longrightarrow> sc_reads s \<le> k \<Longrightarrow>
   sc_stat_calls (hash_loop (Some k) n stat hash_file ps s)
     = sc_stat_calls s @ filter (\<lambda>p. hash_file p \<noteq> None) (take (k - sc_reads s) ps)
   \<and> sc_hash_calls (hash_loop (Some k) n stat hash_file ps s)
     = sc_hash_calls s @ take (k - sc_reads s) ps
   \<and> (sc_reads s + length ps \<le> k \<longrightarrow>
        sc_reads (hash_loop (Some k) n stat hash_file ps s) = sc_reads s + length ps
        \<and> \<not> sc_returned (hash_loop (Some k) n stat hash_file ps s))
   \<and> (k < sc_reads s + length ps \<longrightarrow> sc_returned (hash_loop (Some k) n stat hash_file ps s))
   \<and> no_complete (sc_events (hash_loop (Some k) n stat hash_file ps s))
     = no_complete (sc_events s)"
proof (induction ps arbitrary: s)
  case Nil
  then show ?case by simp
next
  case (Cons p ps)
  show ?case
  proof (cases "k \<le> sc_reads s")
    case True
    then show ?thesis by simp
  next
    case False
    define s1 where "s1 = hash_step n stat hash_file p (sc_read s)"
    have s1: "\<not> sc_returned s1" "sc_reads s1 = Suc (sc_reads s)" "sc_reads s1 \<le> k"
      "sc_stat_calls s1 = sc_stat_calls s @ filter (\<lambda>p. hash_file p \<noteq> None) [p]"
      "sc_hash_calls s1 = sc_hash_calls s @ [p]"
      "no_complete (sc_events s1) = no_complete (sc_events s)"
      using False Cons.prems by (simp_all add: s1_def sc_read_def)
    have t: "take (k - sc_reads s) (p # ps) = p # take (k - sc_reads s1) ps"
      using False by (simp add: s1(2) take_Cons')
    have r: "hash_loop (Some k) n stat hash_file (p # ps) s = hash_loop (Some k) n stat hash_file ps s1"
      using False by (simp add: s1_def)
    from Cons.IH [OF s1(1) s1(3)] show ?thesis
      unfolding r t s1(2,4,5,6) by auto
  qed
qed

lemma scanner_start_fields [simp]:
  "sc_reads (scanner_start e) = 0"
  "\<not> sc_returned (scanner_start e)"
  "sc_stat_calls (scanner_start e) = []"
  "sc_hash_calls (scanner_start e) = []"
  by (simp_all add: scanner_start_def)

lemma fast_hash_calls_files [simp]:
  "sc_hash_calls (fast_files k win32 usf stat r fs s) = sc_hash_calls s"
  by (induction fs arbitrary: s) simp_all

lemma fast_run_cancel:
  "sc_stat_calls (fast_run (Some k) win32 usf stat root_folder tree)
     = visits (take k (scan_checks root_folder tree))
   \<and> (k \<le> length (scan_checks root_folder tree) \<longrightarrow>
        no_complete (sc_events (fast_run (Some k) win32 usf stat root_folder tree)))"
proof -
  define s0 where "s0 = scanner_start ProgressScanningFiles"
  define s1 where "s1 = fast_dirs (Some k) win32 usf stat (os_walk scanner_keeps root_folder tree) s0"
  have f: "sc_follows k (scan_checks root_folder tree) s0 s1"
    unfolding s1_def scan_checks_def by (rule fast_dirs_follows) (simp_all add: s0_def)
  have n0: "no_complete (sc_events s0)" by (simp add: s0_def scanner_start_def no_complete_def)
  have r: "fast_run (Some k) win32 usf stat root_folder tree =
      (if sc_returned s1 then s1
       else if \<not> k \<le> sc_reads s1
            then sc_emit (ScanComplete (fast_duplicates (sc_file_map s1)))
                   (sc_emit (FilesScanned (sc_total_scanned s1)) (sc_read s1))
            else sc_read s1)"
    by (simp add: fast_run_def Let_def s0_def s1_def)
  have A: "sc_stat_calls (fast_run (Some k) win32 usf stat root_folder tree)
     = visits (take k (scan_checks root_folder tree))"
    using f by (simp add: r sc_follows_def s0_def)
  have B: "no_complete (sc_events (fast_run (Some k) win32 usf stat root_folder tree))"
    if "k \<le> length (scan_checks root_folder tree)"
  proof (cases "sc_returned s1")
    case True
    then show ?thesis using f n0 by (simp add: r sc_follows_def)
  next
    case False
    with f have "\<not> k < length (scan_checks root_folder tree)"
      by (auto simp: sc_follows_def s0_def)
    with that f have "sc_reads s1 = k" by (simp add: sc_follows_def s0_def)
    then show ?thesis using False f n0 by (simp add: r sc_follows_def)
  qed
  from A B show ?thesis by blast
qed

lemma deep_run_cancel:
  "sc_stat_calls (deep_run (Some k) stat hash_file root_folder tree)
     = visits (take k (scan_checks root_folder tree))
       @ filter (\<lambda>p. hash_file p \<noteq> None)
           (take (k - length (scan_checks root_folder tree)) (deep_candidates stat root_folder tree))
   \<and> sc_hash_calls (deep_run (Some k) stat hash_file root_folder tree)
     = take (k - length (scan_checks root_folder tree)) (deep_candidates stat root_folder tree)
   \<and> (k \<le> length (scan_checks root_folder tree) + length (deep_candidates stat root_folder tree) \<longrightarrow>
        no_complete (sc_events (deep_run (Some k) stat hash_file root_folder tree)))"
proof -
  define C where "C = scan_checks root_folder tree"
  define ps where "ps = deep_candidates stat root_folder tree"
  define s0 where "s0 = scanner_start ProgressScanningBySize"
  define s1 where "s1 = deep_dirs (Some k) stat (os_walk scanner_keeps root_folder tree) s0"
  define s1' where "s1' = sc_emit (ProgressHashing (length (files_to_hash (sc_size_map s1)))) s1"
  define s2 where "s2 = hash_loop (Some k) (length (files_to_hash (sc_size_map s1))) stat hash_file
                          (files_to_hash (sc_size_map s1)) s1'"
  have f: "sc_follows k C s0 s1"
    unfolding s1_def C_def scan_checks_def by (rule deep_dirs_follows) (simp_all add: s0_def)
  have i1: "deep_inv1 stat s1"
    unfolding s1_def s0_def by (rule deep_inv1_dirs [OF scanner_start_inv1])
  have n1: "no_complete (sc_events s1)" and h1: "sc_hash_calls s1 = []"
    using i1 by (simp_all add: deep_inv1_def)
  have r: "deep_run (Some k) stat hash_file root_folder tree =
      (if sc_returned s1 then s1
       else if sc_returned s2 then s2
       else if \<not> k \<le> sc_reads s2
            then sc_emit (ScanComplete (filter (\<lambda>(hash_val, files). length files > 1) (sc_hash_map s2)))
                   (sc_read s2)
            else sc_read s2)"
    by (simp add: deep_run_def Let_def s0_def s1_def s1'_def s2_def)
  show ?thesis
  proof (cases "k < length C")
    case True
    with f have ret: "sc_returned s1" and c: "sc_stat_calls s1 = visits (take k C)"
      by (simp_all add: sc_follows_def s0_def)
    show ?thesis
      using True ret c n1 h1 by (simp add: r C_def [symmetric] ps_def [symmetric])
  next
    case False
    then have le: "length C \<le> k" by simp
    with f have nr: "\<not> sc_returned s1" and rd: "sc_reads s1 = length C"
      and c: "sc_stat_calls s1 = visits C"
      by (simp_all add: sc_follows_def s0_def)
    have "s1 = deep_dirs None stat (os_walk scanner_keeps root_folder tree) s0"
      unfolding s1_def using le
      by (intro deep_dirs_uncancelled) (simp add: s0_def C_def scan_checks_def)
    then have p: "files_to_hash (sc_size_map s1) = ps"
      by (simp add: ps_def deep_candidates_def s0_def)
    have s1': "\<not> sc_returned s1'" "sc_reads s1' = length C" "sc_stat_calls s1' = visits C"
      "sc_hash_calls s1' = []" "no_complete (sc_events s1')"
      using nr rd c h1 n1 by (simp_all add: s1'_def sc_emit_def no_complete_def)
    have le': "sc_reads s1' \<le> k" using le by (simp add: s1')
    note hl = hash_loop_follows [OF s1'(1) le', of "length ps" stat hash_file ps,
        folded s2_def [unfolded p], unfolded s1']
    have A: "sc_stat_calls s2 = visits C @ filter (\<lambda>p. hash_file p \<noteq> None) (take (k - length C) ps)"
      and H: "sc_hash_calls s2 = take (k - length C) ps"
      and N: "no_complete (sc_events s2)"
      using hl s1'(5) by simp_all
    have R: "k < length C + length ps \<Longrightarrow> sc_returned s2"
      and Q: "length C + length ps \<le> k \<Longrightarrow> sc_reads s2 = length C + length ps"
      using hl by simp_all
    have B: "no_complete (sc_events (deep_run (Some k) stat hash_file root_folder tree))"
      if "k \<le> length C + length ps"
    proof (cases "k < length C + length ps")
      case True
      from R [OF True] show ?thesis using nr N by (simp add: r)
    next
      case False
      with that Q have "sc_reads s2 = k" by simp
      then show ?thesis using nr N by (simp add: r)
    qed
    have "sc_stat_calls (deep_run (Some k) stat hash_file root_folder tree) = sc_stat_calls s2"
      "sc_hash_calls (deep_run (Some k) stat hash_file root_folder tree) = sc_hash_calls s2"
      using nr by (simp_all add: r)
    then show ?thesis
      using A H B le by (simp add: C_def [symmetric] ps_def [symmetric])
  qed
qed


lemma completions_emit:
  "completions (emit e s) = completions s @ filter is_indexing_complete [e]"
  by (simp add: completions_def emit_def)

lemma full_index_completes:
  assumes "ix_reads s + length (full_checks drives) < k"
  shows "\<exists>n. completions (full_index (Some k) stat drives s) = completions s @ [IndexingComplete n]"
proof -
  define s0 where "s0 = s\<lparr>ix_total_files := 0, ix_batch := []\<rparr>"
  define s1 where "s1 = full_drives (Some k) stat drives s0"
  define s2 where "s2 = (if ix_batch s1 \<noteq> []
                then s1\<lparr>ix_db := save_file_index (ix_db s1) (ix_batch s1)\<rparr> else s1)"
  have r: "full_index (Some k) stat drives s =
      (if \<not> k \<le> ix_reads s2 then emit (IndexingComplete (ix_total_files s2)) (read_flag s2)
       else read_flag s2)"
    by (simp add: full_index_def Let_def s0_def s1_def s2_def)
  have f: "ix_follows k (full_checks drives) s0 s1"
    unfolding s1_def by (rule full_drives_follows)
  have s0: "ix_reads s0 = ix_reads s" "completions s0 = completions s"
    by (simp_all add: s0_def completions_def)
  have s2: "ix_reads s2 = ix_reads s1" "completions s2 = completions s1"
    by (simp_all add: s2_def completions_def)
  from f assms have "ix_reads s1 = ix_reads s + length (full_checks drives)"
    and "completions s1 = completions s"
    by (simp_all add: ix_follows_def s0)
  with assms show ?thesis
    by (simp add: r s2 completions_emit)
qed

lemma fast_run_completes:
  assumes "length (scan_checks root_folder tree) < k"
  shows "\<exists>d. ScanComplete d \<in> set (sc_events (fast_run (Some k) win32 usf stat root_folder tree))"
proof -
  define s0 where "s0 = scanner_start ProgressScanningFiles"
  define s1 where "s1 = fast_dirs (Some k) win32 usf stat (os_walk scanner_keeps root_folder tree) s0"
  have f: "sc_follows k (scan_checks root_folder tree) s0 s1"
    unfolding s1_def scan_checks_def by (rule fast_dirs_follows) (simp_all add: s0_def)
  with assms have "\<not> sc_returned s1" "sc_reads s1 = length (scan_checks root_folder tree)"
    by (simp_all add: sc_follows_def s0_def)
  with assms show ?thesis
    by (auto simp: fast_run_def Let_def s0_def [symmetric] s1_def [symmetric])
qed

lemma deep_run_completes:
  assumes "length (scan_checks root_folder tree) + length (deep_candidates stat root_folder tree) < k"
  shows "\<exists>d. ScanComplete d \<in> set (sc_events (deep_run (Some k) stat hash_file root_folder tree))"
proof -
  define C where "C = scan_checks root_folder tree"
  define ps where "ps = deep_candidates stat root_folder tree"
  define s0 where "s0 = scanner_start ProgressScanningBySize"
  define s1 where "s1 = deep_dirs (Some k) stat (os_walk scanner_keeps root_folder tree) s0"
  define s1' where "s1' = sc_emit (ProgressHashing (length (files_to_hash (sc_size_map s1)))) s1"
  define s2 where "s2 = hash_loop (Some k) (length (files_to_hash (sc_size_map s1))) stat hash_file
                          (files_to_hash (sc_size_map s1)) s1'"
  have lt: "length C + length ps < k" using assms by (simp add: C_def ps_def)
  have f: "sc_follows k C s0 s1"
    unfolding s1_def C_def scan_checks_def by (rule deep_dirs_follows) (simp_all add: s0_def)
  with lt have nr: "\<not> sc_returned s1" and rd: "sc_reads s1 = length C"
    by (simp_all add: sc_follows_def s0_def)
  have "s1 = deep_dirs None stat (os_walk scanner_keeps root_folder tree) s0"
    unfolding s1_def using lt
    by (intro deep_dirs_uncancelled) (simp add: s0_def C_def scan_checks_def)
  then have p: "files_to_hash (sc_size_map s1) = ps"
    by (simp add: ps_def deep_candidates_def s0_def)
  have s1': "\<not> sc_returned s1'" "sc_reads s1' = length C"
    using nr rd by (simp_all add: s1'_def sc_emit_def)
  have le': "sc_reads s1' \<le> k" using lt by (simp add: s1')
  note hl = hash_loop_follows [OF s1'(1) le', of "length ps" stat hash_file ps,
      folded s2_def [unfolded p], unfolded s1']
  from hl lt have "\<not> sc_returned s2" "sc_reads s2 = length C + length ps" by simp_all
  with lt nr show ?thesis
    by (auto simp: deep_run_def Let_def s0_def [symmetric] s1_def [symmetric]
        s1'_def [symmetric] s2_def [symmetric])
qed

text \<open>
  Claim C9. Let the stop flag be set so that the first \<open>k\<close> reads of the flag by a scan
  see it clear and every later read sees it set. The checks of a scan are the reads of
  the flag that its loops make when nothing stops them, in order: one on entering each
  drive (full index only), one on entering each directory, one before each file; the
  deep scan then makes one before each file to hash. For each of the three scans, the
  files handed to \<open>os.stat\<close> are exactly the files whose check is among the first \<open>k\<close>, in
  order: the file at whose check the flag is first seen set is not visited, nor any file
  after it, so only the visit guarded by the last clear read can still run once the flag
  is set. In the deep scan the files handed to \<open>hash_file\<close> are likewise the candidates
  whose check is among the first \<open>k\<close>. And if the flag is set by the time of the last
  read of the scan (the one guarding the completion signal, which follows all checks),
  no completion signal is emitted: the completion signals of the indexer are those it
  had emitted before, and the scanners emit no \<open>scan_complete\<close>.
\<close>

theorem cancelled_scan_stops_at_next_check:
  "(ix_stat_calls (full_index (Some k) stat drives s)
        = ix_stat_calls s @ visits (take (k - ix_reads s) (full_checks drives))
    \<and> (k \<le> ix_reads s + length (full_checks drives) \<longrightarrow>
         completions (full_index (Some k) stat drives s) = completions s))
   \<and> (sc_stat_calls (fast_run (Some k) win32 use_size_filter stat root_folder tree)
        = visits (take k (scan_checks root_folder tree))
    \<and> (k \<le> length (scan_checks root_folder tree) \<longrightarrow>
         (\<forall>d. ScanComplete d
              \<notin> set (sc_events (fast_run (Some k) win32 use_size_filter stat root_folder tree)))))
   \<and> (sc_stat_calls (deep_run (Some k) stat hash_file root_folder tree)
        = visits (take k (scan_checks root_folder tree))
          @ filter (\<lambda>p. hash_file p \<noteq> None)
              (take (k - length (scan_checks root_folder tree))
                 (deep_candidates stat root_folder tree))
    \<and> sc_hash_calls (deep_run (Some k) stat hash_file root_folder tree)
        = take (k - length (scan_checks root_folder tree)) (deep_candidates stat root_folder tree)
    \<and> (k \<le> length (scan_checks root_folder tree) + length (deep_candidates stat root_folder tree) \<longrightarrow>
         (\<forall>d. ScanComplete d
              \<notin> set (sc_events (deep_run (Some k) stat hash_file root_folder tree)))))"
proof (intro conjI)
  note F = full_index_follows [of k stat drives s]
  show "ix_stat_calls (full_index (Some k) stat drives s)
        = ix_stat_calls s @ visits (take (k - ix_reads s) (full_checks drives))"
    using F by blast
  show "k \<le> ix_reads s + length (full_checks drives) \<longrightarrow>
         completions (full_index (Some k) stat drives s) = completions s"
    using F by blast
next
  note F = fast_run_cancel [of k win32 use_size_filter stat root_folder tree]
  show "sc_stat_calls (fast_run (Some k) win32 use_size_filter stat root_folder tree)
        = visits (take k (scan_checks root_folder tree))"
    using F by blast
  show "k \<le> length (scan_checks root_folder tree) \<longrightarrow>
         (\<forall>d. ScanComplete d
              \<notin> set (sc_events (fast_run (Some k) win32 use_size_filter stat root_folder tree)))"
    using F unfolding no_complete_def by blast
next
  note D = deep_run_cancel [of k stat hash_file root_folder tree]
  show "sc_stat_calls (deep_run (Some k) stat hash_file root_folder tree)
        = visits (take k (scan_checks root_folder tree))
          @ filter (\<lambda>p. hash_file p \<noteq> None)
              (take (k - length (scan_checks root_folder tree))
                 (deep_candidates stat root_folder tree))"
    using D by blast
  show "sc_hash_calls (deep_run (Some k) stat hash_file root_folder tree)
        = take (k - length (scan_checks root_folder tree)) (deep_candidates stat root_folder tree)"
    using D by blast
  show "k \<le> length (scan_checks root_folder tree) + length (deep_candidates stat root_folder tree) \<longrightarrow>
         (\<forall>d. ScanComplete d
              \<notin> set (sc_events (deep_run (Some k) stat hash_file root_folder tree)))"
    using D unfolding no_complete_def by blast
qed

theorem cancelled_scan_stops_at_next_check_witness:
  "full_checks [(''/'', example_tree)]
     = [Enter, Enter, Visit ''/a'', Enter, Visit ''/x/b'', Visit ''/x/c'', Visit ''/x/gone'']
   \<and> ix_stat_calls (full_index (Some 5) example_stat [(''/'', example_tree)]
        (SystemIndexerThread_init [])) = [''/a'', ''/x/b'']
   \<and> completions (full_index (Some 5) example_stat [(''/'', example_tree)]
        (SystemIndexerThread_init [])) = []
   \<and> scan_checks ''/'' example_tree
     = [Enter, Visit ''/a'', Enter, Visit ''/x/b'', Visit ''/x/c'', Visit ''/x/gone'']
   \<and> sc_stat_calls (fast_run (Some 4) False False example_stat ''/'' example_tree)
     = [''/a'', ''/x/b'']
   \<and> ScanComplete [] \<notin> set (sc_events (fast_run (Some 4) False False example_stat ''/'' example_tree))
   \<and> length (scan_checks ''/'' deep_example_tree) = 7
   \<and> deep_candidates deep_example_stat ''/'' deep_example_tree = [''/a.txt'', ''/b.txt'', ''/c.txt'']
   \<and> sc_stat_calls (deep_run (Some 8) deep_example_stat deep_example_hash ''/'' deep_example_tree)
     = [''/a.txt'', ''/b.txt'', ''/c.txt'', ''/d.txt'', ''/e'', ''/f'', ''/a.txt'']
   \<and> sc_hash_calls (deep_run (Some 8) deep_example_stat deep_example_hash ''/'' deep_example_tree)
     = [''/a.txt'']
   \<and> ScanComplete []
        \<notin> set (sc_events (deep_run (Some 8) deep_example_stat deep_example_hash ''/'' deep_example_tree))"
proof -
  let ?s = "SystemIndexerThread_init []"
  let ?drives = "[(''/'', example_tree)]"
  note I = cancelled_scan_stops_at_next_check [of 5 example_stat ?drives ?s]
  note F = cancelled_scan_stops_at_next_check [of 4 example_stat _ _ False False "''/''"
      example_tree]
  note D = cancelled_scan_stops_at_next_check [of 8 deep_example_stat _ _ _ _ "''/''"
      deep_example_tree deep_example_hash]
  have c1: "full_checks ?drives
     = [Enter, Enter, Visit ''/a'', Enter, Visit ''/x/b'', Visit ''/x/c'', Visit ''/x/gone'']"
    by code_simp
  have s0: "ix_stat_calls ?s = []" "ix_reads ?s = 0" "completions ?s = []"
    by (simp_all add: SystemIndexerThread_init_def completions_def)
  have i1: "ix_stat_calls (full_index (Some 5) example_stat ?drives ?s) = [''/a'', ''/x/b'']"
    using I by (simp add: c1 s0)
  have i2: "completions (full_index (Some 5) example_stat ?drives ?s) = []"
    using I by (simp add: c1 s0)
  have c2: "scan_checks ''/'' example_tree
     = [Enter, Visit ''/a'', Enter, Visit ''/x/b'', Visit ''/x/c'', Visit ''/x/gone'']"
    by code_simp
  have f1: "sc_stat_calls (fast_run (Some 4) False False example_stat ''/'' example_tree)
     = [''/a'', ''/x/b'']"
    using F by (simp add: c2)
  have f2: "ScanComplete []
      \<notin> set (sc_events (fast_run (Some 4) False False example_stat ''/'' example_tree))"
    using F by (simp add: c2)
  have c3: "scan_checks ''/'' deep_example_tree
     = [Enter, Visit ''/a.txt'', Visit ''/b.txt'', Visit ''/c.txt'', Visit ''/d.txt'',
        Visit ''/e'', Visit ''/f'']"
    by code_simp
  have c4: "deep_candidates deep_example_stat ''/'' deep_example_tree
     = [''/a.txt'', ''/b.txt'', ''/c.txt'']"
    by code_simp
  have h: "deep_example_hash ''/a.txt'' \<noteq> None" by (simp add: deep_example_hash_def)
  have d1: "sc_stat_calls (deep_run (Some 8) deep_example_stat deep_example_hash ''/'' deep_example_tree)
     = [''/a.txt'', ''/b.txt'', ''/c.txt'', ''/d.txt'', ''/e'', ''/f'', ''/a.txt'']"
    using D h by (simp add: c3 c4)
  have d2: "sc_hash_calls (deep_run (Some 8) deep_example_stat deep_example_hash ''/'' deep_example_tree)
     = [''/a.txt'']"
    using D by (simp add: c3 c4)
  have d3: "ScanComplete []
      \<notin> set (sc_events (deep_run (Some 8) deep_example_stat deep_example_hash ''/'' deep_example_tree))"
    using D by (simp add: c3 c4)
  have c5: "length (scan_checks ''/'' deep_example_tree) = 7" by (simp add: c3)
  show ?thesis
    using c1 i1 i2 c2 f1 f2 c5 c4 d1 d2 d3 by blast
qed

end
